theory Spec2Isabelle
  imports Complex_Main "HOL-Library.Word"
begin

section \<open>IEEE-754 binary32 arithmetic\<close>

text \<open>
  The sampler computes with C++ \<^verbatim>\<open>float\<close>. A value of that type is a finite real that is
  representable in binary32, an infinity, or a NaN. Every arithmetic operation returns the
  exact result rounded to nearest, ties to even, in binary32 itself (no wider format for
  intermediate results, as on SSE and ARM targets). The sign of zero and NaN payloads are
  not tracked: \<open>Fin 0\<close> stands for both zeros (and is taken as \<open>+0\<close> by a division by
  zero), \<open>NaN\<close> for every NaN.
\<close>

datatype f32 = Fin real | PInf | NInf | NaN

text \<open>The exponent of the binade of \<open>x\<close>, clipped at the subnormal range.\<close>

definition expo :: "real \<Rightarrow> int" where
  "expo x = max (- 126) \<lfloor>log 2 \<bar>x\<bar>\<rfloor>"

text \<open>The spacing of binary32 values around \<open>x\<close>: 24 significant bits.\<close>

definition ulp :: "real \<Rightarrow> real" where
  "ulp x = 2 powr (of_int (expo x) - 23)"

text \<open>Rounding to the nearest integer, a tie to the even one.\<close>

definition rint :: "real \<Rightarrow> int" where
  "rint q = (let f = \<lfloor>q\<rfloor>; r = q - of_int f
             in if r < 1 / 2 then f
                else if 1 / 2 < r then f + 1
                else if even f then f else f + 1)"

definition rne :: "real \<Rightarrow> real" where
  "rne x = of_int (rint (x / ulp x)) * ulp x"

definition FLT_MAX :: real where
  "FLT_MAX = (2 ^ 24 - 1) * 2 ^ 104"

definition round32 :: "real \<Rightarrow> f32" where
  "round32 x = (let y = rne x
                in if FLT_MAX < y then PInf
                   else if y < - FLT_MAX then NInf
                   else Fin y)"

text \<open>A real is a binary32 value when rounding leaves it alone and it is in range.\<close>

definition is_f32 :: "real \<Rightarrow> bool" where
  "is_f32 x \<longleftrightarrow> rne x = x \<and> \<bar>x\<bar> \<le> FLT_MAX"

fun fneg :: "f32 \<Rightarrow> f32" where
  "fneg (Fin x) = Fin (- x)"
| "fneg PInf = NInf"
| "fneg NInf = PInf"
| "fneg NaN = NaN"

fun fadd :: "f32 \<Rightarrow> f32 \<Rightarrow> f32" where
  "fadd (Fin x) (Fin y) = round32 (x + y)"
| "fadd NaN _ = NaN"
| "fadd _ NaN = NaN"
| "fadd PInf NInf = NaN"
| "fadd NInf PInf = NaN"
| "fadd PInf _ = PInf"
| "fadd _ PInf = PInf"
| "fadd NInf _ = NInf"
| "fadd _ NInf = NInf"

definition fsub :: "f32 \<Rightarrow> f32 \<Rightarrow> f32" where
  "fsub a b = fadd a (fneg b)"

text \<open>The sign of a product or quotient with an infinite operand.\<close>

definition signed_inf :: "bool \<Rightarrow> f32" where
  "signed_inf neg = (if neg then NInf else PInf)"

fun fmul :: "f32 \<Rightarrow> f32 \<Rightarrow> f32" where
  "fmul (Fin x) (Fin y) = round32 (x * y)"
| "fmul NaN _ = NaN"
| "fmul _ NaN = NaN"
| "fmul (Fin x) PInf = (if x = 0 then NaN else signed_inf (x < 0))"
| "fmul (Fin x) NInf = (if x = 0 then NaN else signed_inf (0 < x))"
| "fmul PInf (Fin y) = (if y = 0 then NaN else signed_inf (y < 0))"
| "fmul NInf (Fin y) = (if y = 0 then NaN else signed_inf (0 < y))"
| "fmul PInf PInf = PInf"
| "fmul NInf NInf = PInf"
| "fmul PInf NInf = NInf"
| "fmul NInf PInf = NInf"

fun fdiv :: "f32 \<Rightarrow> f32 \<Rightarrow> f32" where
  "fdiv (Fin x) (Fin y) =
     (if y = 0 then (if x = 0 then NaN else signed_inf (x < 0)) else round32 (x / y))"
| "fdiv NaN _ = NaN"
| "fdiv _ NaN = NaN"
| "fdiv (Fin x) _ = Fin 0"
| "fdiv PInf (Fin y) = signed_inf (y < 0)"
| "fdiv NInf (Fin y) = signed_inf (0 \<le> y)"
| "fdiv _ _ = NaN"

text \<open>The comparisons \<^verbatim>\<open>a >= b\<close> and \<^verbatim>\<open>a < b\<close>: false as soon as an operand is a NaN.\<close>

fun fge :: "f32 \<Rightarrow> f32 \<Rightarrow> bool" where
  "fge (Fin x) (Fin y) = (y \<le> x)"
| "fge NaN _ = False"
| "fge _ NaN = False"
| "fge PInf _ = True"
| "fge _ NInf = True"
| "fge _ _ = False"

fun flt :: "f32 \<Rightarrow> f32 \<Rightarrow> bool" where
  "flt (Fin x) (Fin y) = (x < y)"
| "flt NaN _ = False"
| "flt _ NaN = False"
| "flt PInf _ = False"
| "flt _ NInf = False"
| "flt _ _ = True"

fun is_finite :: "f32 \<Rightarrow> bool" where
  "is_finite (Fin x) = True"
| "is_finite _ = False"

section \<open>The standard library the sampler is built on\<close>

text \<open>
  \<^verbatim>\<open>std::mt19937\<close>, \<^verbatim>\<open>std::uniform_real_distribution<float>\<close> and \<^verbatim>\<open>std::sin\<close> belong
  to the C++ library, not to this repository: they are parameters of the model. An engine
  state has type \<open>'g\<close>; \<open>mt19937_seed\<close> is both the seeding constructor and the member
  \<^verbatim>\<open>seed\<close> (the standard gives them the same effect); \<open>uniform_real (a, b) g\<close> is one
  call of a distribution with parameters \<open>a\<close> and \<open>b\<close> on the engine \<open>g\<close>, returning
  the drawn value and the advanced engine (the distribution keeps no state of its own).
\<close>

record 'g stdlib =
  mt19937_seed :: "32 word \<Rightarrow> 'g"
  uniform_real :: "f32 \<times> f32 \<Rightarrow> 'g \<Rightarrow> f32 \<times> 'g"
  std_sin :: "f32 \<Rightarrow> f32"

text \<open>
  The \<^verbatim>\<open>double\<close> constant \<^verbatim>\<open>M_PI\<close> of \<^verbatim>\<open><cmath>\<close>, 3.14159265358979323846 read as a
  binary64 value.
\<close>

definition M_PI :: real where
  "M_PI = 884279719003555 / 281474976710656"

section \<open>The sampler\<close>

record 'g sampler =
  m_CycleStart :: f32
  m_Period :: f32
  m_Amplitude :: f32
  m_Rng :: 'g
  m_PeriodDist :: "f32 \<times> f32"
  m_AmpDist :: "f32 \<times> f32"

text \<open>The literals \<^verbatim>\<open>0.5f, 1.5f\<close> and \<^verbatim>\<open>0.1f, 1.0f\<close> of the constructor.\<close>

definition period_range :: "f32 \<times> f32" where
  "period_range = (round32 (1 / 2), round32 (3 / 2))"

definition amp_range :: "f32 \<times> f32" where
  "amp_range = (round32 (1 / 10), round32 1)"

text \<open>
  \<^verbatim>\<open>Sampler::Sampler(uint32_t inSeed)\<close>: the members are initialised, then the body draws
  the first period and the first amplitude, in this order.
\<close>

definition Sampler :: "'g stdlib \<Rightarrow> 32 word \<Rightarrow> 'g sampler" where
  "Sampler L inSeed =
     (let rng0 = mt19937_seed L inSeed;
          (p, rng1) = uniform_real L period_range rng0;
          (a, rng2) = uniform_real L amp_range rng1
      in \<lparr>m_CycleStart = Fin 0, m_Period = p, m_Amplitude = a, m_Rng = rng2,
          m_PeriodDist = period_range, m_AmpDist = amp_range\<rparr>)"

text \<open>\<^verbatim>\<open>void Sampler::Seed(uint32_t inSeed)\<close>\<close>

definition Seed :: "'g stdlib \<Rightarrow> 32 word \<Rightarrow> 'g sampler \<Rightarrow> 'g sampler" where
  "Seed L inSeed s =
     (let rng0 = mt19937_seed L inSeed;
          (p, rng1) = uniform_real L (m_PeriodDist s) rng0;
          (a, rng2) = uniform_real L (m_AmpDist s) rng1
      in s\<lparr>m_Rng := rng2, m_CycleStart := Fin 0, m_Period := p, m_Amplitude := a\<rparr>)"

text \<open>The test and the body of the loop of \<^verbatim>\<open>SimValue\<close>.\<close>

definition cycle_done :: "f32 \<Rightarrow> 'g sampler \<Rightarrow> bool" where
  "cycle_done inTime s = fge inTime (fadd (m_CycleStart s) (m_Period s))"

definition next_cycle :: "'g stdlib \<Rightarrow> 'g sampler \<Rightarrow> 'g sampler" where
  "next_cycle L s =
     (let cs = fadd (m_CycleStart s) (m_Period s);
          (p, rng1) = uniform_real L (m_PeriodDist s) (m_Rng s);
          (a, rng2) = uniform_real L (m_AmpDist s) rng1
      in s\<lparr>m_CycleStart := cs, m_Period := p, m_Amplitude := a, m_Rng := rng2\<rparr>)"

text \<open>
  The loop \<^verbatim>\<open>while (inTime >= m_CycleStart + m_Period) { ... }\<close>. Nothing in the source
  bounds its iterations, so the result is an option: \<open>None\<close> is a loop that never ends.
\<close>

partial_function (option) advance :: "'g stdlib \<Rightarrow> f32 \<Rightarrow> 'g sampler \<Rightarrow> 'g sampler option"
where
  "advance L inTime s =
     (if cycle_done inTime s then advance L inTime (next_cycle L s) else Some s)"

text \<open>
  \<^verbatim>\<open>theta = 2.0f * static_cast<float>(M_PI) * (inTime - m_CycleStart) / m_Period\<close>,
  evaluated from left to right.
\<close>

definition theta :: "f32 \<Rightarrow> 'g sampler \<Rightarrow> f32" where
  "theta inTime s =
     fdiv (fmul (fmul (Fin 2) (round32 M_PI)) (fsub inTime (m_CycleStart s))) (m_Period s)"

text \<open>\<^verbatim>\<open>return m_Amplitude * std::sin(theta)\<close>\<close>

definition wave :: "'g stdlib \<Rightarrow> f32 \<Rightarrow> 'g sampler \<Rightarrow> f32" where
  "wave L inTime s = fmul (m_Amplitude s) (std_sin L (theta inTime s))"

text \<open>\<^verbatim>\<open>float Sampler::SimValue(float inTime)\<close>: the returned value and the state it leaves.\<close>

definition SimValue :: "'g stdlib \<Rightarrow> f32 \<Rightarrow> 'g sampler \<Rightarrow> (f32 \<times> 'g sampler) option" where
  "SimValue L inTime s =
     (case advance L inTime s of
        None \<Rightarrow> None
      | Some s' \<Rightarrow> Some (wave L inTime s', s'))"

text \<open>The default argument of the constructor and the sampler the Python module owns.\<close>

definition default_seed :: "32 word" where
  "default_seed = 12345"

definition Sampler_default :: "'g stdlib \<Rightarrow> 'g sampler" where
  "Sampler_default L = Sampler L default_seed"

definition theSampler :: "'g stdlib \<Rightarrow> 'g sampler" where
  "theSampler L = Sampler L 12345"

text \<open>The outputs of a sequence of calls of \<^verbatim>\<open>SimValue\<close>; \<open>None\<close> when one of them hangs.\<close>

fun run :: "'g stdlib \<Rightarrow> f32 list \<Rightarrow> 'g sampler \<Rightarrow> f32 list option" where
  "run L [] s = Some []"
| "run L (t # ts) s =
     (case SimValue L t s of
        None \<Rightarrow> None
      | Some (v, s') \<Rightarrow> map_option ((#) v) (run L ts s'))"

text \<open>The states a sampler object can be in: constructed, then reseeded and evaluated.\<close>

inductive reachable :: "'g stdlib \<Rightarrow> 'g sampler \<Rightarrow> bool" for L :: "'g stdlib" where
  constructed: "reachable L (Sampler L inSeed)"
| reseeded: "reachable L s \<Longrightarrow> reachable L (Seed L inSeed s)"
| evaluated: "reachable L s \<Longrightarrow> SimValue L inTime s = Some (v, s') \<Longrightarrow> reachable L s'"

section \<open>What the sampler expects of the library\<close>

text \<open>
  A distribution over \<open>[a, b)\<close> returns a binary32 value between its parameters (the upper
  one is allowed here: implementations are known to return it after rounding).
\<close>

definition in_range :: "f32 \<times> f32 \<Rightarrow> f32 \<Rightarrow> bool" where
  "in_range r v =
     (case (r, v) of
        ((Fin a, Fin b), Fin x) \<Rightarrow> is_f32 x \<and> a \<le> x \<and> x \<le> b
      | _ \<Rightarrow> False)"

definition uniform_ok :: "'g stdlib \<Rightarrow> bool" where
  "uniform_ok L \<longleftrightarrow>
     (\<forall>a b g. is_f32 a \<and> is_f32 b \<and> a \<le> b \<longrightarrow>
        in_range (Fin a, Fin b) (fst (uniform_real L (Fin a, Fin b) g)))"

text \<open>
  The sine of a finite argument is a finite value of magnitude at most one, and the sine
  of zero is zero.
\<close>

definition sin_ok :: "'g stdlib \<Rightarrow> bool" where
  "sin_ok L \<longleftrightarrow>
     std_sin L (Fin 0) = Fin 0 \<and> (\<forall>x. \<exists>y. std_sin L (Fin x) = Fin y \<and> \<bar>y\<bar> \<le> 1)"

text \<open>
  The invariant of the cycle fields: binary32 values, the period and the amplitude in the
  ranges of their distributions, and a cycle start that never passes \<open>2 ^ 25\<close>.
\<close>

definition cycle_inv :: "'g sampler \<Rightarrow> bool" where
  "cycle_inv s \<longleftrightarrow>
     (\<exists>c p a. m_CycleStart s = Fin c \<and> is_f32 c \<and> 0 \<le> c \<and> c \<le> 2 ^ 25 \<and>
        m_Period s = Fin p \<and> is_f32 p \<and> 1 / 2 \<le> p \<and> p \<le> 3 / 2 \<and>
        m_Amplitude s = Fin a \<and> is_f32 a \<and> 1 / 10 \<le> a \<and> a \<le> 1) \<and>
     m_PeriodDist s = period_range \<and> m_AmpDist s = amp_range"

section \<open>A small library to run the sampler on\<close>

text \<open>
  An instance of the library for concrete runs: the engine is a counter of the draws made,
  a distribution always returns its lower parameter, and the sine is the exact sine
  correctly rounded (\<open>NaN\<close> outside the finite values, as Annex F of the C standard has it).
\<close>

definition sin32 :: "f32 \<Rightarrow> f32" where
  "sin32 v = (case v of Fin x \<Rightarrow> round32 (sin x) | _ \<Rightarrow> NaN)"

definition lower_lib :: "nat stdlib" where
  "lower_lib =
     \<lparr>mt19937_seed = unat, uniform_real = (\<lambda>r g. (fst r, Suc g)), std_sin = sin32\<rparr>"

text \<open>
  The state of a sampler on that library in its cycle number \<open>k\<close> (cycles of length 0.5,
  so it starts at \<open>k / 2\<close>) with an engine that has made \<open>g\<close> draws; and the state
  after 16777215 cycles.
\<close>

definition lower_sampler :: "nat \<Rightarrow> nat \<Rightarrow> nat sampler" where
  "lower_sampler k g =
     \<lparr>m_CycleStart = Fin (real k / 2), m_Period = Fin (1 / 2),
      m_Amplitude = Fin (13421773 / 134217728), m_Rng = g,
      m_PeriodDist = period_range, m_AmpDist = amp_range\<rparr>"

definition far_sampler :: "nat sampler" where
  "far_sampler = lower_sampler 16777215 33554432"

text \<open>
  A second instance, for runs that go far: its period distribution draws 1 for the first
  \<open>2 ^ 24\<close> periods and 1.25 afterwards, both inside \<open>[0.5, 1.5)\<close>; the other
  distributions return their lower parameter. \<open>staged_sampler k\<close> is the state of a sampler
  on it, seeded with 0, in its cycle number \<open>k\<close>, which starts at \<open>staged_start k\<close>.
\<close>

definition staged_lib :: "nat stdlib" where
  "staged_lib =
     \<lparr>mt19937_seed = unat,
      uniform_real = (\<lambda>r g.
        (if r = period_range then (if g < 33554432 then Fin 1 else Fin (5 / 4)) else fst r,
         Suc g)),
      std_sin = sin32\<rparr>"

definition staged_start :: "nat \<Rightarrow> real" where
  "staged_start k = (if k \<le> 16777216 then real k else 2 * real k - 16777216)"

definition staged_sampler :: "nat \<Rightarrow> nat sampler" where
  "staged_sampler k =
     \<lparr>m_CycleStart = Fin (staged_start k),
      m_Period = Fin (if k < 16777216 then 1 else 5 / 4),
      m_Amplitude = Fin (13421773 / 134217728), m_Rng = 2 * k + 2,
      m_PeriodDist = period_range, m_AmpDist = amp_range\<rparr>"

section \<open>Rounding to binary32\<close>

lemma rint_of_int [simp]: "rint (of_int n) = n"
  by (simp add: rint_def)

lemma rint_0 [simp]: "rint 0 = 0"
  using rint_of_int [of 0] by simp

lemma rint_mono: "q \<le> q' \<Longrightarrow> rint q \<le> rint q'"
proof -
  assume le: "q \<le> q'"
  have f: "\<lfloor>q\<rfloor> \<le> \<lfloor>q'\<rfloor>" using le by (rule floor_mono)
  show ?thesis
  proof (cases "\<lfloor>q\<rfloor> = \<lfloor>q'\<rfloor>")
    case True
    then show ?thesis using le by (auto simp: rint_def Let_def)
  next
    case False
    then have "\<lfloor>q\<rfloor> + 1 \<le> \<lfloor>q'\<rfloor>" using f by simp
    moreover have "rint q \<le> \<lfloor>q\<rfloor> + 1" by (simp add: rint_def Let_def)
    moreover have "\<lfloor>q'\<rfloor> \<le> rint q'" by (simp add: rint_def Let_def)
    ultimately show ?thesis by linarith
  qed
qed

lemma rint_minus: "rint (- q) = - rint q"
proof (cases "q \<in> \<int>")
  case True
  then obtain n where "q = of_int n" by (auto elim: Ints_cases)
  then show ?thesis using rint_of_int [of "- n"] by simp
next
  case False
  have "\<lfloor>- q\<rfloor> = - \<lceil>q\<rceil>" by (simp add: ceiling_def)
  moreover have "\<lceil>q\<rceil> = \<lfloor>q\<rfloor> + 1"
    using False by (auto simp: ceiling_altdef) (metis Ints_of_int)
  ultimately have c: "\<lfloor>- q\<rfloor> = - \<lfloor>q\<rfloor> - 1" by simp
  define f where "f = \<lfloor>q\<rfloor>"
  define r where "r = q - of_int f"
  have r': "- q - of_int (- f - 1) = 1 - r" by (simp add: r_def)
  have ev: "even (- f - 1) \<longleftrightarrow> odd f" by simp
  have 1: "rint q = (if r < 1 / 2 then f else if 1 / 2 < r then f + 1
       else if even f then f else f + 1)"
    unfolding rint_def Let_def f_def r_def by simp
  have 2: "rint (- q) = (if 1 - r < 1 / 2 then - f - 1 else if 1 / 2 < 1 - r then - f - 1 + 1
       else if even (- f - 1) then - f - 1 else - f - 1 + 1)"
    unfolding rint_def Let_def c f_def [symmetric] r' ..
  show ?thesis unfolding 1 2 ev by (cases "r < 1/2"; cases "1/2 < r"; simp)
qed

lemma rint_err: "\<bar>of_int (rint q) - q\<bar> \<le> 1 / 2"
  by (auto simp: rint_def Let_def abs_le_iff; linarith)

lemma expo_ge: "- 126 \<le> expo x"
  by (simp add: expo_def)

lemma ulp_pos [simp]: "0 < ulp x"
  by (simp add: ulp_def)

lemma expo_minus [simp]: "expo (- x) = expo x"
  by (simp add: expo_def)

lemma ulp_minus [simp]: "ulp (- x) = ulp x"
  by (simp add: ulp_def)

lemma rne_minus: "rne (- x) = - rne x"
  by (simp add: rne_def rint_minus)

lemma rne_0 [simp]: "rne 0 = 0"
  by (simp add: rne_def)

lemma expo_eqI:
  assumes "2 powr of_int e \<le> \<bar>x\<bar>" "\<bar>x\<bar> < 2 powr (of_int e + 1)" "- 126 \<le> e"
  shows "expo x = e"
proof -
  have "0 < \<bar>x\<bar>" using assms(1) by (smt (verit) powr_gt_zero)
  then have "\<lfloor>log 2 \<bar>x\<bar>\<rfloor> = e"
    using assms by (simp add: floor_log_eq_powr_iff)
  then show ?thesis using assms(3) by (simp add: expo_def)
qed

lemma expo_upper: assumes "x \<noteq> 0" shows "\<bar>x\<bar> < 2 powr (of_int (expo x) + 1)"
proof -
  have pos: "0 < \<bar>x\<bar>" using assms by simp
  have "\<bar>x\<bar> < 2 powr (of_int \<lfloor>log 2 \<bar>x\<bar>\<rfloor> + 1)"
    using floor_log_eq_powr_iff [OF pos, of 2 "\<lfloor>log 2 \<bar>x\<bar>\<rfloor>"] by simp
  also have "\<dots> \<le> 2 powr (of_int (expo x) + 1)"
    by (rule powr_mono) (simp_all add: expo_def)
  finally show ?thesis .
qed

lemma expo_lower: assumes "x \<noteq> 0" "- 126 < expo x" shows "2 powr of_int (expo x) \<le> \<bar>x\<bar>"
proof -
  have pos: "0 < \<bar>x\<bar>" using assms by simp
  have e: "expo x = \<lfloor>log 2 \<bar>x\<bar>\<rfloor>" using assms(2) by (simp add: expo_def max_def split: if_splits)
  show ?thesis
    using floor_log_eq_powr_iff [OF pos, of 2 "\<lfloor>log 2 \<bar>x\<bar>\<rfloor>"] e by simp
qed

lemma expo_mono: assumes "x \<noteq> 0" "\<bar>x\<bar> \<le> \<bar>y\<bar>" shows "expo x \<le> expo y"
proof -
  have "log 2 \<bar>x\<bar> \<le> log 2 \<bar>y\<bar>" using assms by (intro log_mono) auto
  then have "\<lfloor>log 2 \<bar>x\<bar>\<rfloor> \<le> \<lfloor>log 2 \<bar>y\<bar>\<rfloor>" by (rule floor_mono)
  then show ?thesis by (simp add: expo_def)
qed

lemma ulp_eq: "ulp x * 2 ^ 24 = 2 powr (of_int (expo x) + 1)"
proof -
  have "(2::real) ^ 24 = 2 powr 24" by simp
  then show ?thesis unfolding ulp_def by (simp only: powr_add [symmetric]) (simp add: add.commute)
qed

lemma ulp_neq0 [simp]: "ulp x \<noteq> 0"
  using ulp_pos [of x] by linarith

lemma ulp_nonneg [simp]: "0 \<le> ulp x"
  using ulp_pos [of x] by linarith

lemma ulp_eq': "ulp x * 2 ^ 23 = 2 powr of_int (expo x)"
proof -
  have "(2::real) ^ 23 = 2 powr 23" by simp
  then show ?thesis unfolding ulp_def by (simp only: powr_add [symmetric]) simp
qed

lemma rne_nonneg: assumes "0 \<le> x" shows "0 \<le> rne x"
proof -
  have "0 \<le> x / ulp x" using assms ulp_pos [of x] by (intro divide_nonneg_pos)
  then have "0 \<le> rint (x / ulp x)" using rint_mono [of 0 "x / ulp x"] by simp
  then show ?thesis by (simp add: rne_def)
qed

lemma rne_le_binade: assumes "0 < x" shows "rne x \<le> 2 powr (of_int (expo x) + 1)"
proof -
  have "x < ulp x * 2 ^ 24" using expo_upper [of x] assms ulp_eq [of x] by simp
  then have "x / ulp x \<le> of_int (2 ^ 24)" by (simp add: field_simps)
  then have "rint (x / ulp x) \<le> 2 ^ 24" using rint_mono rint_of_int by metis
  then have "real_of_int (rint (x / ulp x)) \<le> 2 ^ 24" by simp
  then have "rne x \<le> 2 ^ 24 * ulp x" unfolding rne_def by (simp add: mult_right_mono)
  then show ?thesis using ulp_eq [of x] by (simp add: mult.commute)
qed

lemma rne_ge_binade:
  assumes "0 < x" "- 126 < expo x" shows "2 powr of_int (expo x) \<le> rne x"
proof -
  have "ulp x * 2 ^ 23 \<le> x" using expo_lower [of x] assms ulp_eq' [of x] by simp
  then have "of_int (2 ^ 23) \<le> x / ulp x" by (simp add: field_simps)
  then have "2 ^ 23 \<le> rint (x / ulp x)" using rint_mono rint_of_int by metis
  then have "2 ^ 23 \<le> real_of_int (rint (x / ulp x))" by simp
  then have "2 ^ 23 * ulp x \<le> rne x" unfolding rne_def by (simp add: mult_right_mono)
  then show ?thesis using ulp_eq' [of x] by (simp add: mult.commute)
qed

lemma rne_mono_pos: assumes "0 < x" "x \<le> y" shows "rne x \<le> rne y"
proof -
  have ey: "expo x \<le> expo y" using assms by (intro expo_mono) auto
  show ?thesis
  proof (cases "expo x = expo y")
    case True
    then have u: "ulp x = ulp y" by (simp add: ulp_def)
    have "x / ulp y \<le> y / ulp y" using assms(2) by (intro divide_right_mono) simp_all
    then have "rint (x / ulp y) \<le> rint (y / ulp y)" by (rule rint_mono)
    then show ?thesis unfolding rne_def u by (simp add: mult_right_mono)
  next
    case False
    then have lt: "expo x + 1 \<le> expo y" using ey by simp
    then have "- 126 < expo y" using expo_ge [of x] by linarith
    then have "2 powr of_int (expo y) \<le> rne y" using assms by (intro rne_ge_binade) auto
    moreover have "rne x \<le> 2 powr (of_int (expo x) + 1)" using assms by (intro rne_le_binade)
    moreover have "(2::real) powr (of_int (expo x) + 1) \<le> 2 powr of_int (expo y)"
    proof (rule powr_mono)
      have "real_of_int (expo x + 1) \<le> real_of_int (expo y)" using lt by (simp only: of_int_le_iff)
      then show "real_of_int (expo x) + 1 \<le> real_of_int (expo y)" by simp
    qed simp
    ultimately show ?thesis by linarith
  qed
qed

lemma rne_mono: assumes "x \<le> y" shows "rne x \<le> rne y"
proof -
  consider "0 < x" | "x \<le> 0" "0 \<le> y" | "y < 0" by linarith
  then show ?thesis
  proof cases
    case 1 then show ?thesis using assms by (rule rne_mono_pos)
  next
    case 2
    have "rne x \<le> 0" using rne_nonneg [of "- x"] 2 by (simp add: rne_minus)
    moreover have "0 \<le> rne y" using 2 by (intro rne_nonneg)
    ultimately show ?thesis by linarith
  next
    case 3
    have "rne (- y) \<le> rne (- x)" using 3 assms by (intro rne_mono_pos) auto
    then show ?thesis by (simp add: rne_minus)
  qed
qed

lemma rne_fixI: assumes "x / ulp x = of_int n" shows "rne x = x"
proof -
  have "rne x = of_int n * ulp x" unfolding rne_def assms by simp
  also have "\<dots> = x" using assms [symmetric] by simp
  finally show ?thesis .
qed

lemma rne_dyadic:
  assumes n: "\<bar>n\<bar> \<le> 2 ^ 24" and j: "- 149 \<le> j"
  shows "rne (of_int n * 2 powr of_int j) = of_int n * 2 powr of_int j"
proof (cases "n = 0")
  case True then show ?thesis by simp
next
  case False
  define x where "x = real_of_int n * 2 powr of_int j"
  define e where "e = expo x"
  have x0: "x \<noteq> 0" using False by (simp add: x_def)
  have absx: "\<bar>x\<bar> = real_of_int \<bar>n\<bar> * 2 powr of_int j" by (simp add: x_def abs_mult)
  have q: "x / ulp x = real_of_int n * 2 powr (of_int j - (of_int e - 23))"
    by (simp add: x_def ulp_def e_def powr_diff)
  have "\<exists>m. x / ulp x = of_int m"
  proof (cases "e \<le> j + 23")
    case True
    define k where "k = j + 23 - e"
    have k: "0 \<le> k" using True by (simp add: k_def)
    have "real_of_int j - (real_of_int e - 23) = real_of_int k" by (simp add: k_def)
    then have "x / ulp x = real_of_int n * 2 powr (real_of_int k)" using q by simp
    also have "\<dots> = real_of_int n * 2 ^ nat k" using k by (simp add: powr_real_of_int)
    also have "\<dots> = real_of_int (n * 2 ^ nat k)" by simp
    finally show ?thesis by blast
  next
    case False
    then have gt: "j + 24 \<le> e" by simp
    then have "- 126 < e" using j by linarith
    then have lo: "2 powr of_int e \<le> \<bar>x\<bar>" using expo_lower [OF x0] by (simp add: e_def)
    have "real_of_int \<bar>n\<bar> \<le> 2 ^ 24" using n by simp
    then have "\<bar>x\<bar> \<le> 2 ^ 24 * 2 powr of_int j"
      unfolding absx by (intro mult_right_mono) simp_all
    also have "\<dots> = 2 powr (24 + of_int j)" by (simp add: powr_add)
    finally have hi: "\<bar>x\<bar> \<le> 2 powr (24 + of_int j)" .
    have "(2::real) powr of_int e \<le> 2 powr (24 + of_int j)" using lo hi by linarith
    then have "real_of_int e \<le> 24 + real_of_int j" by simp
    then have "e \<le> 24 + j" by linarith
    then have e: "e = j + 24" using gt by simp
    have "2 powr (24 + real_of_int j) \<le> real_of_int \<bar>n\<bar> * 2 powr of_int j"
      using lo by (simp add: e absx add.commute)
    then have "2 ^ 24 * 2 powr real_of_int j \<le> real_of_int \<bar>n\<bar> * 2 powr of_int j"
      by (simp add: powr_add)
    then have "(2::real) ^ 24 \<le> real_of_int \<bar>n\<bar>" by simp
    then have "2 ^ 24 \<le> \<bar>n\<bar>" by simp
    then have an: "\<bar>n\<bar> = 2 ^ 24" using n by simp
    have "real_of_int j - (real_of_int e - 23) = - 1" by (simp add: e)
    then have "x / ulp x = real_of_int n * 2 powr (- 1)" by (simp only: q)
    also have "\<dots> = real_of_int n / 2" by (simp add: powr_minus_divide)
    also have "\<dots> = real_of_int (n div 2)"
    proof -
      have "even n" using an by (cases "0 \<le> n") (simp_all add: abs_if, presburger+)
      then show ?thesis by (simp add: real_of_int_div)
    qed
    finally show ?thesis by blast
  qed
  then obtain m where "x / ulp x = of_int m" ..
  then have "rne x = x" by (rule rne_fixI)
  then show ?thesis by (simp add: x_def)
qed

lemma rint_bound: assumes "\<bar>q\<bar> \<le> of_int N" shows "\<bar>rint q\<bar> \<le> N"
proof -
  have "rint q \<le> rint (of_int N)" using assms by (intro rint_mono) linarith
  moreover have "rint (of_int (- N)) \<le> rint q" using assms by (intro rint_mono) simp
  ultimately have "rint q \<le> N" "- N \<le> rint q" by (simp_all only: rint_of_int)
  then show ?thesis by linarith
qed

lemma rne_mantissa: "\<bar>rint (x / ulp x)\<bar> \<le> 2 ^ 24"
proof (cases "x = 0")
  case True then show ?thesis by simp
next
  case False
  have "\<bar>x\<bar> < ulp x * 2 ^ 24" using expo_upper [OF False] ulp_eq [of x] by simp
  then have "\<bar>x\<bar> / ulp x \<le> 2 ^ 24" by (simp add: field_simps)
  then have "\<bar>x / ulp x\<bar> \<le> of_int (2 ^ 24)" by simp
  then show ?thesis by (rule rint_bound)
qed

lemma rne_idem [simp]: "rne (rne x) = rne x"
proof -
  have "ulp x = 2 powr of_int (expo x - 23)" by (simp add: ulp_def)
  then have "rne x = of_int (rint (x / ulp x)) * 2 powr of_int (expo x - 23)"
    by (simp add: rne_def)
  moreover have "- 149 \<le> expo x - 23" using expo_ge [of x] by linarith
  ultimately show ?thesis using rne_dyadic [OF rne_mantissa, of "expo x - 23" x] by simp
qed

lemma rne_le: "is_f32 r \<Longrightarrow> x \<le> r \<Longrightarrow> rne x \<le> r"
  using rne_mono [of x r] by (simp add: is_f32_def)

lemma rne_ge: "is_f32 r \<Longrightarrow> r \<le> x \<Longrightarrow> r \<le> rne x"
  using rne_mono [of r x] by (simp add: is_f32_def)

lemma rne_err: "\<bar>rne x - x\<bar> \<le> ulp x / 2"
proof -
  have "rne x - x = (of_int (rint (x / ulp x)) - x / ulp x) * ulp x"
    by (simp add: rne_def algebra_simps)
  then have "\<bar>rne x - x\<bar> = \<bar>of_int (rint (x / ulp x)) - x / ulp x\<bar> * ulp x"
    by (simp add: abs_mult)
  also have "\<dots> \<le> 1 / 2 * ulp x" by (intro mult_right_mono rint_err) simp
  finally show ?thesis by simp
qed

lemma rne_eval:
  assumes "u = 2 powr (of_int e - 23)" "2 ^ 23 * u \<le> \<bar>x\<bar>" "\<bar>x\<bar> < 2 ^ 24 * u" "- 126 \<le> e"
  shows "rne x = of_int (rint (x / u)) * u"
proof -
  have "2 ^ 23 * u = 2 powr of_int e" "2 ^ 24 * u = 2 powr (of_int e + 1)"
    using ulp_eq' ulp_eq unfolding assms(1) by (simp_all add: powr_diff powr_add)
  then have "expo x = e" using assms by (intro expo_eqI) simp_all
  then show ?thesis by (simp add: rne_def ulp_def assms(1))
qed

section \<open>Values and constants of binary32\<close>

lemma round32_fin: "\<bar>rne x\<bar> \<le> FLT_MAX \<Longrightarrow> round32 x = Fin (rne x)"
  by (auto simp: round32_def Let_def)

lemma FLT_MAX_big: "2 ^ 25 \<le> FLT_MAX"
  by (simp add: FLT_MAX_def)

lemma is_f32_dyadic:
  assumes "\<bar>n\<bar> < 2 ^ 24" "- 149 \<le> j" "j \<le> 104"
  shows "is_f32 (of_int n * 2 powr of_int j)"
proof -
  have n: "\<bar>n\<bar> \<le> 2 ^ 24 - 1" using assms(1) by simp
  then have "real_of_int \<bar>n\<bar> \<le> real_of_int (2 ^ 24 - 1)" by (simp only: of_int_le_iff)
  then have "real_of_int \<bar>n\<bar> \<le> 2 ^ 24 - 1" by simp
  moreover have "(2::real) powr of_int j \<le> 2 powr 104" using assms(3) by (intro powr_mono) simp_all
  ultimately have "real_of_int \<bar>n\<bar> * 2 powr of_int j \<le> (2 ^ 24 - 1) * 2 powr 104"
    by (intro mult_mono) simp_all
  then have "\<bar>of_int n * 2 powr of_int j\<bar> \<le> FLT_MAX"
    by (simp add: abs_mult FLT_MAX_def)
  moreover have "\<bar>n\<bar> \<le> 2 ^ 24" using assms(1) by simp
  ultimately show ?thesis using rne_dyadic [of n j] assms(2) by (simp add: is_f32_def)
qed

lemma is_f32_int: assumes "\<bar>n\<bar> < 2 ^ 24" shows "is_f32 (of_int n)"
  using is_f32_dyadic [OF assms, of 0] by simp

lemma is_f32_0 [simp]: "is_f32 0" using is_f32_int [of 0] by simp
lemma is_f32_1 [simp]: "is_f32 1" using is_f32_int [of 1] by simp
lemma is_f32_half [simp]: "is_f32 (1 / 2)"
  using is_f32_dyadic [of 1 "- 1"] by (simp add: powr_minus_divide)
lemma is_f32_three_halves [simp]: "is_f32 (3 / 2)"
  using is_f32_dyadic [of 3 "- 1"] by (simp add: powr_minus_divide)
lemma is_f32_tenth [simp]: "is_f32 (13421773 / 134217728)"
  using is_f32_dyadic [of 13421773 "- 27"] by (simp add: powr_minus_divide)
lemma is_f32_2p25 [simp]: "is_f32 (2 ^ 25)"
  using is_f32_dyadic [of 1 25] by simp

lemma round32_id: "is_f32 x \<Longrightarrow> round32 x = Fin x"
  by (simp add: is_f32_def round32_fin)

lemma rne_tenth: "rne (1 / 10) = 13421773 / 134217728"
  by (subst rne_eval [of "1 / 2 ^ 27" "- 4"]) (simp_all add: rint_def Let_def powr_minus_divide)

lemma period_range_eq: "period_range = (Fin (1 / 2), Fin (3 / 2))"
  by (simp add: period_range_def round32_id)

lemma amp_range_eq: "amp_range = (Fin (13421773 / 134217728), Fin 1)"
  using round32_fin [of "1 / 10"] by (simp add: amp_range_def round32_id rne_tenth FLT_MAX_def)

section \<open>The loop and the fields it leaves alone\<close>

lemma next_cycle_dists [simp]:
  "m_PeriodDist (next_cycle L s) = m_PeriodDist s" "m_AmpDist (next_cycle L s) = m_AmpDist s"
  by (simp_all add: next_cycle_def Let_def split: prod.splits)

lemma advance_invariant:
  assumes run: "advance L t s = Some s'"
    and init: "I s"
    and step: "\<And>u. I u \<Longrightarrow> cycle_done t u \<Longrightarrow> I (next_cycle L u)"
  shows "I s' \<and> \<not> cycle_done t s'"
proof -
  have "L = L \<and> t = t \<and> I s \<longrightarrow> I s' \<and> \<not> cycle_done t s'"
  proof (rule advance.raw_induct
      [where P = "\<lambda>L' t' u u'. L' = L \<and> t' = t \<and> I u \<longrightarrow> I u' \<and> \<not> cycle_done t u'", OF _ run])
    fix adv :: "'a stdlib \<Rightarrow> f32 \<Rightarrow> 'a sampler \<Rightarrow> 'a sampler option"
    fix L' t' u u'
    assume IH: "\<And>L' t' u u'. adv L' t' u = Some u' \<Longrightarrow>
        L' = L \<and> t' = t \<and> I u \<longrightarrow> I u' \<and> \<not> cycle_done t u'"
    assume body: "(if cycle_done t' u then adv L' t' (next_cycle L' u) else Some u) = Some u'"
    show "L' = L \<and> t' = t \<and> I u \<longrightarrow> I u' \<and> \<not> cycle_done t u'"
    proof (intro impI, elim conjE)
      assume eq: "L' = L" "t' = t" and Iu: "I u"
      show "I u' \<and> \<not> cycle_done t u'"
      proof (cases "cycle_done t u")
        case True
        then have "adv L t (next_cycle L u) = Some u'" using body eq by simp
        from IH [OF this] step [OF Iu True] show ?thesis by simp
      next
        case False
        then show ?thesis using body eq Iu by simp
      qed
    qed
  qed
  then show ?thesis using init by simp
qed

lemma advance_dists:
  assumes "advance L t s = Some s'"
  shows "m_PeriodDist s' = m_PeriodDist s \<and> m_AmpDist s' = m_AmpDist s"
  using advance_invariant [OF assms,
      where I = "\<lambda>u. m_PeriodDist u = m_PeriodDist s \<and> m_AmpDist u = m_AmpDist s"]
  by simp

lemma advance_skip: "\<not> cycle_done t s \<Longrightarrow> advance L t s = Some s"
  by (subst advance.simps) simp

lemma advance_step: "cycle_done t s \<Longrightarrow> advance L t s = advance L t (next_cycle L s)"
  by (subst advance.simps) simp

lemma SimValue_dists:
  assumes "SimValue L t s = Some (v, s')"
  shows "m_PeriodDist s' = m_PeriodDist s \<and> m_AmpDist s' = m_AmpDist s"
  using assms advance_dists [of L t s s'] by (auto simp: SimValue_def split: option.splits)

lemma Seed_dists [simp]:
  "m_PeriodDist (Seed L k s) = m_PeriodDist s" "m_AmpDist (Seed L k s) = m_AmpDist s"
  by (simp_all add: Seed_def Let_def split: prod.splits)

lemma Sampler_dists [simp]:
  "m_PeriodDist (Sampler L k) = period_range" "m_AmpDist (Sampler L k) = amp_range"
  by (simp_all add: Sampler_def Let_def split: prod.splits)

lemma Seed_is_Sampler:
  assumes "m_PeriodDist s = period_range" "m_AmpDist s = amp_range"
  shows "Seed L k s = Sampler L k"
  using assms by (simp add: Seed_def Sampler_def Let_def split: prod.splits)

lemma reachable_dists:
  assumes "reachable L s"
  shows "m_PeriodDist s = period_range \<and> m_AmpDist s = amp_range"
  using assms
proof (induction rule: reachable.induct)
  case (evaluated s t v s')
  then show ?case using SimValue_dists [of L t s v s'] by simp
qed simp_all

lemma flt_not_fge: "flt a b \<Longrightarrow> \<not> fge a b"
  by (cases a; cases b) simp_all

section \<open>Reseeding, construction and evaluation inside a cycle\<close>

lemma rne_M_PI: "rne M_PI = 13176795 / 4194304"
  unfolding M_PI_def
  by (subst rne_eval [of "1 / 2 ^ 22" 1]) (simp_all add: rint_def Let_def powr_minus_divide)

lemma is_f32_pi [simp]: "is_f32 (13176795 / 4194304)"
  using is_f32_dyadic [of 13176795 "- 22"] by (simp add: powr_minus_divide)

lemma is_f32_two_pi [simp]: "is_f32 (13176795 / 2097152)"
  using is_f32_dyadic [of 13176795 "- 21"] by (simp add: powr_minus_divide)

lemma round32_M_PI: "round32 M_PI = Fin (13176795 / 4194304)"
  using round32_fin [of M_PI] is_f32_pi by (simp add: rne_M_PI is_f32_def)

lemma two_pi: "fmul (Fin 2) (round32 M_PI) = Fin (13176795 / 2097152)"
  by (simp add: round32_M_PI round32_id)

lemma round32_0 [simp]: "round32 0 = Fin 0"
  by (simp add: round32_id)

lemma Sampler_lower:
  "Sampler lower_lib k =
     \<lparr>m_CycleStart = Fin 0, m_Period = Fin (1 / 2), m_Amplitude = Fin (13421773 / 134217728),
      m_Rng = Suc (Suc (unat k)), m_PeriodDist = period_range, m_AmpDist = amp_range\<rparr>"
  by (simp add: Sampler_def lower_lib_def Let_def) (simp add: period_range_eq amp_range_eq)

lemma theta_zero:
  assumes "m_CycleStart s = Fin c" "m_Period s = Fin p" "p \<noteq> 0"
  shows "theta (Fin c) s = Fin 0"
  using assms by (simp add: theta_def two_pi fsub_def)

lemma SimValue_lower_0:
  "SimValue lower_lib (Fin 0) (Sampler lower_lib k) = Some (Fin 0, Sampler lower_lib k)"
proof -
  have "\<not> cycle_done (Fin 0) (Sampler lower_lib k)"
    by (simp add: cycle_done_def Sampler_lower round32_id)
  then have "advance lower_lib (Fin 0) (Sampler lower_lib k) = Some (Sampler lower_lib k)"
    by (rule advance_skip)
  moreover have "theta (Fin 0) (Sampler lower_lib k) = Fin 0"
    by (rule theta_zero [where p = "1 / 2"]) (simp_all add: Sampler_lower)
  moreover have "std_sin lower_lib (Fin 0) = Fin 0"
    by (simp add: lower_lib_def sin32_def)
  ultimately show ?thesis
    by (simp add: SimValue_def wave_def) (simp add: Sampler_lower)
qed

text \<open>
  C2. Reseeding makes the outputs a function of the seed and the evaluation times alone:
  two samplers, whatever their histories, produce the same outputs once both are seeded with
  the same value and evaluated at the same times; and on one sampler, seeding, evaluating,
  seeding again with the same value and evaluating at the same time returns the same value
  and leaves the same state.
\<close>

theorem reseed_deterministic:
  assumes "reachable L s" "reachable L s'"
  shows "run L ts (Seed L k s) = run L ts (Seed L k s') \<and>
    (\<forall>t a s1. SimValue L t (Seed L k s) = Some (a, s1) \<longrightarrow>
       SimValue L t (Seed L k s1) = Some (a, s1))"
proof -
  have s: "Seed L k s = Sampler L k" and s': "Seed L k s' = Sampler L k"
    using assms reachable_dists Seed_is_Sampler by blast+
  have "SimValue L t (Seed L k s1) = Some (a, s1)"
    if run: "SimValue L t (Seed L k s) = Some (a, s1)" for t a s1
  proof -
    have "m_PeriodDist s1 = period_range \<and> m_AmpDist s1 = amp_range"
      using SimValue_dists [OF run] by (simp add: s)
    then have "Seed L k s1 = Seed L k s" by (simp add: Seed_is_Sampler s)
    then show ?thesis using run by simp
  qed
  then show ?thesis by (simp add: s s')
qed

theorem reseed_deterministic_witness:
  "reachable lower_lib (Sampler lower_lib 1) \<and> reachable lower_lib (Sampler lower_lib 2) \<and>
   run lower_lib [Fin 0] (Seed lower_lib 7 (Sampler lower_lib 1)) =
     run lower_lib [Fin 0] (Seed lower_lib 7 (Sampler lower_lib 2)) \<and>
   SimValue lower_lib (Fin 0) (Seed lower_lib 7 (Sampler lower_lib 1)) =
     Some (Fin 0, Sampler lower_lib 7) \<and>
   SimValue lower_lib (Fin 0) (Seed lower_lib 7 (Sampler lower_lib 7)) =
     Some (Fin 0, Sampler lower_lib 7)"
proof -
  have r1: "reachable lower_lib (Sampler lower_lib 1)"
    and r2: "reachable lower_lib (Sampler lower_lib 2)"
    by (rule reachable.constructed)+
  have first: "SimValue lower_lib (Fin 0) (Seed lower_lib 7 (Sampler lower_lib 1)) =
      Some (Fin 0, Sampler lower_lib 7)"
    by (simp add: Seed_is_Sampler SimValue_lower_0)
  from reseed_deterministic [OF r1 r2, of "[Fin 0]" 7] first r1 r2 show ?thesis by blast
qed

text \<open>
  C7. On every state a sampler can be in, \<^verbatim>\<open>Seed(k)\<close> leaves exactly the state that the
  constructor builds from \<open>k\<close> (engine, cycle start, period and amplitude), so the outputs
  that follow are those of a new \<^verbatim>\<open>Sampler(k)\<close> at the same evaluation times.
\<close>

theorem seed_is_construction:
  assumes "reachable L s"
  shows "Seed L k s = Sampler L k \<and> run L ts (Seed L k s) = run L ts (Sampler L k)"
  using reachable_dists [OF assms] by (simp add: Seed_is_Sampler)

theorem seed_is_construction_witness:
  "reachable lower_lib (Seed lower_lib 3 (Sampler lower_lib 1)) \<and>
   Seed lower_lib 7 (Seed lower_lib 3 (Sampler lower_lib 1)) = Sampler lower_lib 7 \<and>
   run lower_lib [Fin 0] (Seed lower_lib 7 (Seed lower_lib 3 (Sampler lower_lib 1))) =
     Some [Fin 0]"
proof -
  have r: "reachable lower_lib (Seed lower_lib 3 (Sampler lower_lib 1))"
    by (intro reachable.reseeded reachable.constructed)
  from seed_is_construction [OF r, of 7 "[Fin 0]"] r show ?thesis
    by (simp add: SimValue_lower_0)
qed

text \<open>
  C8. The constructor's default argument is 12345, and the sampler of the Python module is
  built from the same literal: a sampler constructed without a seed is \<^verbatim>\<open>Sampler(12345)\<close>,
  and so is the module's, with the same outputs at the same evaluation times.
\<close>

theorem default_seed_is_12345:
  "Sampler_default L = Sampler L 12345 \<and> theSampler L = Sampler_default L \<and>
   run L ts (Sampler_default L) = run L ts (Sampler L 12345) \<and>
   run L ts (theSampler L) = run L ts (Sampler_default L)"
  by (simp add: Sampler_default_def theSampler_def default_seed_def)

text \<open>
  C9. An evaluation at a time below \<^verbatim>\<open>m_CycleStart + m_Period\<close> (the sum as the code
  computes it) returns the value of the current cycle and leaves every field of the state,
  the engine included, as it was. A sequence of such evaluations therefore returns, in
  any order, the values each of them returns alone.
\<close>

theorem in_cycle_evaluation_is_pure:
  assumes "\<forall>t \<in> set ts. flt t (fadd (m_CycleStart s) (m_Period s))"
  shows "(\<forall>t \<in> set ts. SimValue L t s = Some (wave L t s, s)) \<and>
    run L ts s = Some (map (\<lambda>t. wave L t s) ts)"
proof -
  have one: "SimValue L t s = Some (wave L t s, s)"
    if "flt t (fadd (m_CycleStart s) (m_Period s))" for t
    using that flt_not_fge advance_skip [of t s L] by (simp add: SimValue_def cycle_done_def)
  have "run L us s = Some (map (\<lambda>t. wave L t s) us)" if "set us \<subseteq> set ts" for us
    using that assms by (induction us) (simp_all add: one)
  then show ?thesis using assms one by simp
qed

theorem in_cycle_evaluation_is_pure_witness:
  "flt (Fin (1 / 4))
     (fadd (m_CycleStart (Sampler lower_lib 5)) (m_Period (Sampler lower_lib 5))) \<and>
   flt (Fin 0) (fadd (m_CycleStart (Sampler lower_lib 5)) (m_Period (Sampler lower_lib 5))) \<and>
   SimValue lower_lib (Fin (1 / 4)) (Sampler lower_lib 5) =
     Some (wave lower_lib (Fin (1 / 4)) (Sampler lower_lib 5), Sampler lower_lib 5) \<and>
   run lower_lib [Fin (1 / 4), Fin 0] (Sampler lower_lib 5) =
     Some [wave lower_lib (Fin (1 / 4)) (Sampler lower_lib 5),
           wave lower_lib (Fin 0) (Sampler lower_lib 5)]"
proof -
  have h: "\<forall>t \<in> set [Fin (1 / 4), Fin 0].
      flt t (fadd (m_CycleStart (Sampler lower_lib 5)) (m_Period (Sampler lower_lib 5)))"
    by (simp add: Sampler_lower round32_id)
  from in_cycle_evaluation_is_pure [OF h, of lower_lib] h show ?thesis by simp
qed

section \<open>The invariant of the cycle fields\<close>

lemma rne_near_2p25: "rne (2 ^ 25 + 3 / 2) = 2 ^ 25"
  by (subst rne_eval [of 4 25]) (simp_all add: rint_def Let_def)

lemma is_f32_rne: "\<bar>rne x\<bar> \<le> FLT_MAX \<Longrightarrow> is_f32 (rne x)"
  by (simp add: is_f32_def)

lemma uniform_ok_lower: "uniform_ok lower_lib"
  by (simp add: uniform_ok_def lower_lib_def in_range_def)

lemma draw_period:
  assumes "uniform_ok L"
  obtains p where "fst (uniform_real L period_range g) = Fin p" "is_f32 p" "1 / 2 \<le> p" "p \<le> 3 / 2"
proof -
  have "in_range (Fin (1 / 2), Fin (3 / 2)) (fst (uniform_real L (Fin (1 / 2), Fin (3 / 2)) g))"
    using assms unfolding uniform_ok_def by simp
  then show ?thesis using that
    by (auto simp: in_range_def period_range_eq split: f32.splits)
qed

lemma draw_amp:
  assumes "uniform_ok L"
  obtains a where "fst (uniform_real L amp_range g) = Fin a" "is_f32 a" "1 / 10 \<le> a" "a \<le> 1"
proof -
  have "in_range (Fin (13421773 / 134217728), Fin 1)
      (fst (uniform_real L (Fin (13421773 / 134217728), Fin 1) g))"
    using assms unfolding uniform_ok_def by simp
  then show ?thesis using that
    by (auto simp: in_range_def amp_range_eq split: f32.splits)
qed

lemma cycle_invI:
  assumes "m_CycleStart s = Fin c" "is_f32 c" "0 \<le> c" "c \<le> 2 ^ 25"
    and "m_Period s = Fin p" "is_f32 p" "1 / 2 \<le> p" "p \<le> 3 / 2"
    and "m_Amplitude s = Fin a" "is_f32 a" "1 / 10 \<le> a" "a \<le> 1"
    and "m_PeriodDist s = period_range" "m_AmpDist s = amp_range"
  shows "cycle_inv s"
  unfolding cycle_inv_def using assms by blast

lemma Sampler_inv: assumes "uniform_ok L" shows "cycle_inv (Sampler L k)"
proof -
  obtain p where p: "fst (uniform_real L period_range (mt19937_seed L k)) = Fin p"
    "is_f32 p" "1 / 2 \<le> p" "p \<le> 3 / 2" using draw_period [OF assms] by blast
  obtain a where a: "fst (uniform_real L amp_range
      (snd (uniform_real L period_range (mt19937_seed L k)))) = Fin a"
    "is_f32 a" "1 / 10 \<le> a" "a \<le> 1" using draw_amp [OF assms] by blast
  show ?thesis
    by (rule cycle_invI [where c = 0 and p = p and a = a])
      (use p a in \<open>simp_all add: Sampler_def Let_def split_beta\<close>)
qed

lemma next_cycle_start:
  assumes "is_f32 c" "0 \<le> c" "c \<le> 2 ^ 25" "1 / 2 \<le> p" "p \<le> 3 / 2"
  obtains r where "fadd (Fin c) (Fin p) = Fin r" "is_f32 r" "0 \<le> r" "r \<le> 2 ^ 25" "c \<le> r"
proof -
  have "rne (c + p) \<le> rne (2 ^ 25 + 3 / 2)" using assms by (intro rne_mono) simp
  then have hi: "rne (c + p) \<le> 2 ^ 25" by (simp only: rne_near_2p25)
  have lo: "c \<le> rne (c + p)" using assms by (intro rne_ge) simp_all
  then have "\<bar>rne (c + p)\<bar> \<le> FLT_MAX" using hi assms(2) FLT_MAX_big by simp
  then have "fadd (Fin c) (Fin p) = Fin (rne (c + p))" "is_f32 (rne (c + p))"
    by (simp_all add: round32_fin is_f32_rne)
  then show ?thesis using that hi lo assms(2) by simp
qed

lemma next_cycle_inv:
  assumes "uniform_ok L" "cycle_inv s"
  shows "cycle_inv (next_cycle L s)"
proof -
  obtain c p0 where s: "m_CycleStart s = Fin c" "is_f32 c" "0 \<le> c" "c \<le> 2 ^ 25"
    "m_Period s = Fin p0" "1 / 2 \<le> p0" "p0 \<le> 3 / 2"
    "m_PeriodDist s = period_range" "m_AmpDist s = amp_range"
    using assms(2) unfolding cycle_inv_def by blast
  obtain r where r: "fadd (Fin c) (Fin p0) = Fin r" "is_f32 r" "0 \<le> r" "r \<le> 2 ^ 25"
    using next_cycle_start [OF s(2,3,4,6,7)] by blast
  obtain p where p: "fst (uniform_real L period_range (m_Rng s)) = Fin p"
    "is_f32 p" "1 / 2 \<le> p" "p \<le> 3 / 2" using draw_period [OF assms(1)] by blast
  obtain a where a: "fst (uniform_real L amp_range
      (snd (uniform_real L period_range (m_Rng s)))) = Fin a"
    "is_f32 a" "1 / 10 \<le> a" "a \<le> 1" using draw_amp [OF assms(1)] by blast
  show ?thesis
    by (rule cycle_invI [where c = r and p = p and a = a])
      (use s r p a in \<open>simp_all add: next_cycle_def Let_def split_beta\<close>)
qed

lemma Seed_inv:
  assumes "uniform_ok L" "m_PeriodDist s = period_range" "m_AmpDist s = amp_range"
  shows "cycle_inv (Seed L k s)"
  using Sampler_inv [OF assms(1)] Seed_is_Sampler [OF assms(2,3)] by simp

lemma advance_inv:
  assumes "uniform_ok L" "cycle_inv s" "advance L t s = Some s'"
  shows "cycle_inv s'"
  using advance_invariant [OF assms(3), where I = cycle_inv] assms(1,2) next_cycle_inv by blast

lemma reachable_inv:
  assumes "uniform_ok L" "reachable L s"
  shows "cycle_inv s"
  using assms(2)
proof (induction rule: reachable.induct)
  case (constructed k)
  show ?case by (rule Sampler_inv [OF assms(1)])
next
  case (reseeded s k)
  then show ?case using Seed_inv [OF assms(1)] by (simp add: cycle_inv_def)
next
  case (evaluated s t v s')
  then show ?case using advance_inv [OF assms(1), of s t s']
    by (auto simp: SimValue_def split: option.splits)
qed

lemma advance_stuck:
  assumes "uniform_ok L" "cycle_inv s" "2 ^ 25 \<le> \<tau>"
  shows "advance L (Fin \<tau>) s = None"
proof (cases "advance L (Fin \<tau>) s")
  case (Some s')
  have inv: "cycle_inv s'" and out: "\<not> cycle_done (Fin \<tau>) s'"
    using advance_invariant [OF Some, where I = cycle_inv] assms(1,2) next_cycle_inv by blast+
  obtain c p where s: "m_CycleStart s' = Fin c" "is_f32 c" "0 \<le> c" "c \<le> 2 ^ 25"
    "m_Period s' = Fin p" "1 / 2 \<le> p" "p \<le> 3 / 2"
    using inv unfolding cycle_inv_def by blast
  obtain r where "fadd (Fin c) (Fin p) = Fin r" "r \<le> 2 ^ 25"
    using next_cycle_start [OF s(2,3,4,6,7)] by blast
  then have "cycle_done (Fin \<tau>) s'" using assms(3) s by (simp add: cycle_done_def)
  then show ?thesis using out by simp
qed simp

section \<open>Ranges of the cycle fields and the length of the loop\<close>

text \<open>
  C6. With distributions that return values between their parameters, the period of every
  state a sampler can be in lies in \<open>[0.5, 1.5]\<close> and its amplitude in \<open>[0.1, 1.0]\<close>:
  the constructor, \<^verbatim>\<open>Seed\<close> and each iteration of the loop of \<^verbatim>\<open>SimValue\<close> redraw both
  from these ranges.
\<close>

theorem period_and_amplitude_in_range:
  assumes "uniform_ok L" "reachable L s"
  shows "\<exists>p a. m_Period s = Fin p \<and> 1 / 2 \<le> p \<and> p \<le> 3 / 2 \<and>
    m_Amplitude s = Fin a \<and> 1 / 10 \<le> a \<and> a \<le> 1"
  using reachable_inv [OF assms] unfolding cycle_inv_def by blast

theorem period_and_amplitude_in_range_witness:
  "uniform_ok lower_lib \<and> reachable lower_lib (Sampler lower_lib 1) \<and>
   (\<exists>p a. m_Period (Sampler lower_lib 1) = Fin p \<and> 1 / 2 \<le> p \<and> p \<le> 3 / 2 \<and>
      m_Amplitude (Sampler lower_lib 1) = Fin a \<and> 1 / 10 \<le> a \<and> a \<le> 1)"
  using period_and_amplitude_in_range [OF uniform_ok_lower reachable.constructed, of 1]
    uniform_ok_lower reachable.constructed [of lower_lib 1]
  by blast

text \<open>
  C4. The loop does not end for every finite time. The cycle start is a binary32 value,
  and from \<open>2 ^ 25\<close> on the sum \<^verbatim>\<open>m_CycleStart + m_Period\<close> rounds back to the cycle
  start, a period being at most 1.5: the cycle start never passes \<open>2 ^ 25\<close>, the loop test
  stays true for a time of \<open>2 ^ 25\<close> or more, and \<^verbatim>\<open>SimValue\<close> never returns, on any
  state a sampler can be in and whatever the distributions draw.
\<close>

theorem large_time_never_returns:
  assumes "uniform_ok L" "reachable L s" "2 ^ 25 \<le> \<tau>"
  shows "SimValue L (Fin \<tau>) s = None"
  using advance_stuck [OF assms(1) reachable_inv [OF assms(1,2)] assms(3)]
  by (simp add: SimValue_def)

theorem large_time_never_returns_witness:
  "uniform_ok lower_lib \<and> reachable lower_lib (Sampler lower_lib 12345) \<and>
   SimValue lower_lib (Fin 33554432) (Sampler lower_lib 12345) = None"
  using large_time_never_returns [OF uniform_ok_lower reachable.constructed, of 33554432 12345]
    uniform_ok_lower reachable.constructed [of lower_lib 12345]
  by simp

section \<open>The returned value\<close>

lemma is_f32_minus [simp]: "is_f32 (- x) \<longleftrightarrow> is_f32 x"
  by (simp add: is_f32_def rne_minus)

lemma rne_abs_le: assumes "is_f32 r" "\<bar>x\<bar> \<le> r" shows "\<bar>rne x\<bar> \<le> r"
proof -
  have "rne x \<le> r" using assms by (intro rne_le) simp_all
  moreover have "- r \<le> rne x" using assms by (intro rne_ge) simp_all
  ultimately show ?thesis by simp
qed

lemma rne_nonpos: "x \<le> 0 \<Longrightarrow> rne x \<le> 0"
  using rne_mono [of x 0] by simp

lemma sin_ok_lower: "sin_ok lower_lib"
proof -
  have "\<exists>y. sin32 (Fin x) = Fin y \<and> \<bar>y\<bar> \<le> 1" for x
  proof -
    have b: "\<bar>rne (sin x)\<bar> \<le> 1" by (rule rne_abs_le) simp_all
    then have "\<bar>rne (sin x)\<bar> \<le> FLT_MAX" using FLT_MAX_big by simp
    then show ?thesis using b by (simp add: sin32_def round32_fin)
  qed
  then show ?thesis by (simp add: sin_ok_def lower_lib_def) (simp add: sin32_def)
qed

lemma fmul_NaN [simp]: "fmul x NaN = NaN"
  by (cases x) simp_all

lemma overflow_down:
  assumes "x \<le> - (2 ^ 126)"
  shows "round32 (13176795 / 2097152 * x) = NInf"
proof -
  have "rne (real_of_int (- 13176795) * 2 powr of_int 105) =
      real_of_int (- 13176795) * 2 powr of_int 105"
    by (rule rne_dyadic) simp_all
  then have "rne (- (13176795 * 2 ^ 105)) = - (13176795 * 2 ^ 105)" by simp
  moreover have "rne (13176795 / 2097152 * x) \<le> rne (- (13176795 * 2 ^ 105))"
    using assms by (intro rne_mono) simp
  ultimately have "rne (13176795 / 2097152 * x) < - FLT_MAX" by (simp add: FLT_MAX_def)
  then show ?thesis by (simp add: round32_def Let_def FLT_MAX_def)
qed

lemma wave_overflow:
  assumes "is_f32 x" "x \<le> - (2 ^ 126)"
  shows "SimValue lower_lib (Fin x) (Sampler lower_lib k) = Some (NaN, Sampler lower_lib k)"
proof -
  have "\<not> cycle_done (Fin x) (Sampler lower_lib k)"
    using assms(2) by (simp add: cycle_done_def Sampler_lower round32_id)
  then have "advance lower_lib (Fin x) (Sampler lower_lib k) = Some (Sampler lower_lib k)"
    by (rule advance_skip)
  moreover have "theta (Fin x) (Sampler lower_lib k) = NInf"
  proof -
    have "fsub (Fin x) (Fin 0) = Fin x"
      using round32_id [OF assms(1)] by (simp add: fsub_def)
    moreover have "fmul (Fin (13176795 / 2097152)) (Fin x) = NInf"
      using overflow_down [OF assms(2)] by simp
    ultimately show ?thesis
      by (simp add: theta_def two_pi Sampler_lower signed_inf_def del: fmul.simps)
  qed
  moreover have "std_sin lower_lib NInf = NaN"
    by (simp add: lower_lib_def sin32_def)
  ultimately show ?thesis
    by (simp add: SimValue_def wave_def)
qed

lemma is_f32_2p126 [simp]: "is_f32 (2 ^ 126)"
  using is_f32_dyadic [of "2 ^ 22" 104] by simp

lemma is_f32_2p127 [simp]: "is_f32 (2 ^ 127)"
  using is_f32_dyadic [of "2 ^ 23" 104] by simp

lemma wave_bounded:
  assumes "sin_ok L" "m_Amplitude s = Fin a" "is_f32 a" "0 \<le> a" "a \<le> 1"
    and "theta t s = Fin \<theta>"
  shows "\<exists>y. wave L t s = Fin y \<and> \<bar>y\<bar> \<le> a"
proof -
  obtain y0 where y0: "std_sin L (Fin \<theta>) = Fin y0" "\<bar>y0\<bar> \<le> 1"
    using assms(1) unfolding sin_ok_def by blast
  have "\<bar>a * y0\<bar> \<le> a" using y0(2) assms(4) by (simp add: abs_mult mult_left_le)
  then have b: "\<bar>rne (a * y0)\<bar> \<le> a" using assms(3) by (intro rne_abs_le)
  then have "\<bar>rne (a * y0)\<bar> \<le> FLT_MAX" using assms(5) FLT_MAX_big by simp
  then have "wave L t s = Fin (rne (a * y0))"
    by (simp add: wave_def assms(2,6) y0(1) round32_fin)
  then show ?thesis using b by simp
qed

lemma theta_alt:
  "theta t s = fdiv (fmul (Fin (13176795 / 2097152)) (fsub t (m_CycleStart s))) (m_Period s)"
  by (simp add: theta_def two_pi)

lemma theta_fin:
  assumes "m_CycleStart s = Fin c" "m_Period s = Fin p" "0 < p" "theta (Fin \<tau>) s = Fin \<theta>"
  shows "\<theta> = rne (rne (13176795 / 2097152 * rne (\<tau> - c)) / p)"
  using assms unfolding theta_alt
  by (auto simp: fsub_def round32_def Let_def signed_inf_def split: if_splits)

lemma theta_nonpos:
  assumes "m_CycleStart s = Fin c" "m_Period s = Fin p" "0 < p" "theta (Fin \<tau>) s = Fin \<theta>"
    and "\<tau> \<le> c"
  shows "\<theta> \<le> 0"
proof -
  have "rne (\<tau> - c) \<le> 0" using assms(5) by (intro rne_nonpos) simp
  then have "13176795 / 2097152 * rne (\<tau> - c) \<le> 0" by (simp add: mult_le_0_iff)
  then have "rne (13176795 / 2097152 * rne (\<tau> - c)) \<le> 0" by (rule rne_nonpos)
  then have "rne (13176795 / 2097152 * rne (\<tau> - c)) / p \<le> 0"
    using assms(3) by (simp add: divide_le_0_iff)
  then have "rne (rne (13176795 / 2097152 * rne (\<tau> - c)) / p) \<le> 0" by (rule rne_nonpos)
  then show ?thesis using theta_fin [OF assms(1-4)] by simp
qed

lemma theta_lower_m1:
  "theta (Fin (- 1)) (Sampler lower_lib k) = Fin (- (13176795 / 1048576))"
proof -
  have "is_f32 (13176795 / 1048576)"
    using is_f32_dyadic [of 13176795 "- 20"] by (simp add: powr_minus_divide)
  then have "round32 (- (13176795 / 1048576)) = Fin (- (13176795 / 1048576))"
    by (intro round32_id) simp
  then show ?thesis
    by (simp add: theta_def two_pi fsub_def Sampler_lower round32_id)
qed

text \<open>
  C10, as the code has it. At a time before the cycle start the loop is skipped:
  \<^verbatim>\<open>SimValue\<close> returns and leaves the state as it was; and when the phase it computes is
  finite, that phase is not positive and the value is at most the amplitude in magnitude.
\<close>

theorem rewound_evaluation:
  assumes "uniform_ok L" "sin_ok L" "reachable L s" "flt (Fin \<tau>) (m_CycleStart s)"
  shows "SimValue L (Fin \<tau>) s = Some (wave L (Fin \<tau>) s, s) \<and>
    (\<forall>\<theta>. theta (Fin \<tau>) s = Fin \<theta> \<longrightarrow>
       \<theta> \<le> 0 \<and> (\<exists>y a. wave L (Fin \<tau>) s = Fin y \<and> m_Amplitude s = Fin a \<and> \<bar>y\<bar> \<le> a))"
proof -
  have inv: "cycle_inv s" using reachable_inv [OF assms(1,3)] .
  then obtain c p a where s: "m_CycleStart s = Fin c" "is_f32 c" "0 \<le> c" "c \<le> 2 ^ 25"
    "m_Period s = Fin p" "1 / 2 \<le> p" "p \<le> 3 / 2"
    "m_Amplitude s = Fin a" "is_f32 a" "1 / 10 \<le> a" "a \<le> 1"
    unfolding cycle_inv_def by blast
  have lt: "\<tau> < c" using assms(4) s(1) by simp
  obtain r where "fadd (Fin c) (Fin p) = Fin r" "c \<le> r"
    using next_cycle_start [OF s(2,3,4,6,7)] by blast
  then have "\<not> cycle_done (Fin \<tau>) s" using lt s by (simp add: cycle_done_def)
  then have ret: "SimValue L (Fin \<tau>) s = Some (wave L (Fin \<tau>) s, s)"
    by (simp add: SimValue_def advance_skip)
  have "\<theta> \<le> 0 \<and> (\<exists>y a. wave L (Fin \<tau>) s = Fin y \<and> m_Amplitude s = Fin a \<and> \<bar>y\<bar> \<le> a)"
    if th: "theta (Fin \<tau>) s = Fin \<theta>" for \<theta>
  proof -
    have "\<theta> \<le> 0" using theta_nonpos [OF s(1,5) _ th] lt s(6) by simp
    moreover obtain y where "wave L (Fin \<tau>) s = Fin y" "\<bar>y\<bar> \<le> a"
      using wave_bounded [OF assms(2) s(8,9) _ s(11) th] s(10) by force
    ultimately show ?thesis using s(8) by simp
  qed
  then show ?thesis using ret by blast
qed

theorem rewound_evaluation_witness:
  "uniform_ok lower_lib \<and> sin_ok lower_lib \<and> reachable lower_lib (Sampler lower_lib 3) \<and>
   flt (Fin (- 1)) (m_CycleStart (Sampler lower_lib 3)) \<and>
   SimValue lower_lib (Fin (- 1)) (Sampler lower_lib 3) =
     Some (wave lower_lib (Fin (- 1)) (Sampler lower_lib 3), Sampler lower_lib 3) \<and>
   theta (Fin (- 1)) (Sampler lower_lib 3) = Fin (- (13176795 / 1048576)) \<and>
   (\<exists>y a. wave lower_lib (Fin (- 1)) (Sampler lower_lib 3) = Fin y \<and>
      m_Amplitude (Sampler lower_lib 3) = Fin a \<and> \<bar>y\<bar> \<le> a)"
proof -
  have f: "flt (Fin (- 1)) (m_CycleStart (Sampler lower_lib 3))"
    by (simp add: Sampler_lower)
  from rewound_evaluation [OF uniform_ok_lower sin_ok_lower reachable.constructed f]
    theta_lower_m1 [of 3]
  show ?thesis
    using uniform_ok_lower sin_ok_lower reachable.constructed [of lower_lib 3] f by blast
qed

text \<open>
  C10 as stated fails: the time \<open>- 2 ^ 127\<close> is before the cycle start of a new sampler,
  and the value returned there is a NaN, which the amplitude does not bound.
\<close>

theorem rewound_value_counterexample:
  "flt (Fin (- (2 ^ 127))) (m_CycleStart (Sampler lower_lib 1)) \<and>
   SimValue lower_lib (Fin (- (2 ^ 127))) (Sampler lower_lib 1) =
     Some (NaN, Sampler lower_lib 1)"
  using wave_overflow [of "- (2 ^ 127)" 1] is_f32_2p127 by (simp add: Sampler_lower)

section \<open>The phase\<close>

lemma rne_upper: assumes "0 \<le> x" shows "rne x \<le> x * (1 + 1 / 2 ^ 24) + 1 / 2 ^ 150"
proof (cases "x = 0")
  case True
  then show ?thesis by simp
next
  case nz: False
  have err: "rne x - x \<le> ulp x / 2" using rne_err [of x] by linarith
  have "ulp x / 2 \<le> x / 2 ^ 24 + 1 / 2 ^ 150"
  proof (cases "- 126 < expo x")
    case True
    then have "2 powr of_int (expo x) \<le> x" using expo_lower [of x] assms nz by simp
    then have "ulp x * 2 ^ 23 \<le> x" by (simp only: ulp_eq')
    then have "ulp x / 2 \<le> x / 2 ^ 24" by simp
    then show ?thesis by simp
  next
    case False
    then have "expo x = - 126" using expo_ge [of x] by simp
    then have "ulp x = 2 powr (- 149)" by (simp add: ulp_def)
    then show ?thesis using assms by (simp add: powr_minus_divide)
  qed
  then show ?thesis using err by (simp add: algebra_simps)
qed

lemma next_cycle_fields:
  "m_CycleStart (next_cycle L s) = fadd (m_CycleStart s) (m_Period s)"
  by (simp add: next_cycle_def Let_def split_beta)

lemma advance_post:
  assumes ok: "uniform_ok L" and inv: "cycle_inv s" and t: "is_f32 \<tau>"
    and ge: "fge (Fin \<tau>) (m_CycleStart s)" and run: "advance L (Fin \<tau>) s = Some s'"
  obtains c p where "m_CycleStart s' = Fin c" "is_f32 c" "m_Period s' = Fin p" "is_f32 p"
    "1 / 2 \<le> p" "p \<le> 3 / 2" "c \<le> \<tau>" "\<tau> < c + p"
proof -
  have "(cycle_inv s' \<and> fge (Fin \<tau>) (m_CycleStart s')) \<and> \<not> cycle_done (Fin \<tau>) s'"
    using advance_invariant
      [OF run, where I = "\<lambda>u. cycle_inv u \<and> fge (Fin \<tau>) (m_CycleStart u)"]
      inv ge next_cycle_inv [OF ok]
    by (simp add: next_cycle_fields cycle_done_def)
  then have inv': "cycle_inv s'" and ge': "fge (Fin \<tau>) (m_CycleStart s')"
    and out: "\<not> cycle_done (Fin \<tau>) s'" by simp_all
  obtain c p where s: "m_CycleStart s' = Fin c" "is_f32 c" "0 \<le> c" "c \<le> 2 ^ 25"
    "m_Period s' = Fin p" "is_f32 p" "1 / 2 \<le> p" "p \<le> 3 / 2"
    using inv' unfolding cycle_inv_def by blast
  obtain r where r: "fadd (Fin c) (Fin p) = Fin r" "r \<le> 2 ^ 25"
    using next_cycle_start [OF s(2,3,4,7,8)] by blast
  have rr: "r = rne (c + p)" using r(1) by (simp add: round32_def Let_def split: if_splits)
  have "\<tau> < r" using out s r by (simp add: cycle_done_def)
  then have "\<not> c + p \<le> \<tau>" using rne_le [OF t, of "c + p"] rr by linarith
  then have "\<tau> < c + p" by simp
  moreover have "c \<le> \<tau>" using ge' s(1) by simp
  ultimately show ?thesis using that s by blast
qed

lemma is_f32_16 [simp]: "is_f32 16" using is_f32_int [of 16] by simp
lemma is_f32_32 [simp]: "is_f32 32" using is_f32_int [of 32] by simp

lemma theta_in_cycle:
  assumes s: "m_CycleStart s = Fin c" "m_Period s = Fin p" "is_f32 p" "1 / 2 \<le> p" "p \<le> 3 / 2"
    and t: "c \<le> \<tau>" "\<tau> < c + p"
  obtains \<theta> where "theta (Fin \<tau>) s = Fin \<theta>" "0 \<le> \<theta>" "\<theta> \<le> 62831863 / 10000000"
proof -
  define K :: real where "K = 13176795 / 2097152"
  define d where "d = rne (\<tau> - c)"
  define m where "m = rne (K * d)"
  define q where "q = rne (m / p)"
  have p0: "0 < p" using s(4) by simp
  have d0: "0 \<le> d" unfolding d_def using t(1) by (intro rne_nonneg) simp
  have dp: "d \<le> p" unfolding d_def using t(2) s(3) by (intro rne_le) simp_all
  have m0: "0 \<le> m" unfolding m_def using d0 by (intro rne_nonneg) (simp add: K_def)
  have "K * d \<le> 16" using dp s(5) d0 by (simp add: K_def)
  then have m16: "m \<le> 16" unfolding m_def by (intro rne_le) simp_all
  have q0: "0 \<le> q" unfolding q_def using m0 p0 by (intro rne_nonneg) simp
  have "m / p \<le> 32" using m16 s(4) m0 p0 by (simp add: field_simps)
  then have q32: "q \<le> 32" unfolding q_def by (intro rne_le) simp_all
  have big: "32 \<le> FLT_MAX" by (simp add: FLT_MAX_def)
  have 1: "fsub (Fin \<tau>) (Fin c) = Fin d"
    using d0 dp s(5) big by (simp add: fsub_def d_def [symmetric] round32_fin)
  have 2: "fmul (Fin K) (Fin d) = Fin m"
    using m0 m16 big by (simp add: m_def [symmetric] round32_fin)
  have 3: "fdiv (Fin m) (Fin p) = Fin q"
    using q0 q32 big p0 by (simp add: q_def [symmetric] round32_fin)
  have th: "theta (Fin \<tau>) s = Fin q"
    unfolding theta_alt s K_def [symmetric] 1 2 3 ..
  define e :: real where "e = 1 + 1 / 2 ^ 24"
  define dl :: real where "dl = 1 / 2 ^ 150"
  have e1: "1 \<le> e" by (simp add: e_def)
  have "m \<le> K * d * e + dl"
    unfolding m_def e_def dl_def using d0 by (intro rne_upper) (simp add: K_def)
  also have "\<dots> \<le> K * p * e + dl" using dp e1 by (simp add: K_def)
  finally have mb: "m \<le> K * p * e + dl" .
  have "m / p \<le> (K * p * e + dl) / p" using mb p0 by (simp add: divide_right_mono)
  also have "\<dots> = K * e + dl / p" using p0 by (simp add: field_simps)
  also have "\<dots> \<le> K * e + 2 * dl"
  proof -
    have "dl / p \<le> dl / (1 / 2)" using s(4) by (intro divide_left_mono) (simp_all add: dl_def)
    then show ?thesis by simp
  qed
  finally have qb: "m / p \<le> K * e + 2 * dl" .
  have "q \<le> m / p * e + dl"
    unfolding q_def e_def dl_def using m0 p0 by (intro rne_upper) simp
  also have "\<dots> \<le> (K * e + 2 * dl) * e + dl"
  proof -
    have "m / p * e \<le> (K * e + 2 * dl) * e" using qb e1 by (intro mult_right_mono) simp_all
    then show ?thesis by simp
  qed
  also have "\<dots> \<le> 62831863 / 10000000" by (simp add: K_def e_def dl_def)
  finally have "q \<le> 62831863 / 10000000" .
  then show ?thesis using that th q0 by blast
qed


lemma advance_lower_rewound:
  "advance lower_lib (Fin (- 1)) (Sampler lower_lib k) = Some (Sampler lower_lib k)"
  by (rule advance_skip) (simp add: cycle_done_def Sampler_lower round32_id)

lemma advance_lower_0:
  "advance lower_lib (Fin 0) (Sampler lower_lib k) = Some (Sampler lower_lib k)"
  by (rule advance_skip) (simp add: cycle_done_def Sampler_lower round32_id)

text \<open>
  The rounded phase does reach the code's own \<^verbatim>\<open>2.0f * static_cast<float>(M_PI)\<close>, which is
  above \<open>2 * pi\<close>, at a time inside the cycle: here in a cycle that starts at 0 with the
  period \<open>15929817 / 2 ^ 24\<close>, at the binary32 value just below that period.
\<close>

lemma round32_eq: "rne x = y \<Longrightarrow> \<bar>y\<bar> \<le> FLT_MAX \<Longrightarrow> round32 x = Fin y"
  by (simp add: round32_fin)

lemma phase_reaches_two_pi:
  assumes "m_CycleStart s = Fin 0" "m_Period s = Fin (15929817 / 16777216)"
  shows "\<not> cycle_done (Fin (15929816 / 16777216)) s \<and>
    theta (Fin (15929816 / 16777216)) s = fmul (Fin 2) (round32 M_PI)"
proof -
  have p: "is_f32 (15929817 / 16777216)"
    using is_f32_dyadic [of 15929817 "- 24"] by (simp add: powr_minus_divide)
  have t: "is_f32 (15929816 / 16777216)"
    using is_f32_dyadic [of 15929816 "- 24"] by (simp add: powr_minus_divide)
  have 1: "rne (13176795 / 2097152 * (15929816 / 16777216)) = 12511249 / 2097152"
    by (subst rne_eval [of "1 / 2 ^ 21" 2]) (simp_all add: rint_def Let_def powr_minus_divide)
  have 2: "rne (12511249 / 2097152 / (15929817 / 16777216)) = 13176795 / 2097152"
    by (subst rne_eval [of "1 / 2 ^ 21" 2]) (simp_all add: rint_def Let_def powr_minus_divide)
  have a: "fmul (Fin (13176795 / 2097152)) (Fin (15929816 / 16777216)) = Fin (12511249 / 2097152)"
    unfolding fmul.simps by (rule round32_eq [OF 1]) (simp add: FLT_MAX_def)
  have b: "fdiv (Fin (12511249 / 2097152)) (Fin (15929817 / 16777216)) = Fin (13176795 / 2097152)"
  proof -
    have "round32 (12511249 / 2097152 / (15929817 / 16777216)) = Fin (13176795 / 2097152)"
      by (rule round32_eq [OF 2]) (simp add: FLT_MAX_def)
    then show ?thesis by simp
  qed
  have c: "fsub (Fin (15929816 / 16777216)) (Fin 0) = Fin (15929816 / 16777216)"
    using round32_id [OF t] by (simp add: fsub_def)
  have "theta (Fin (15929816 / 16777216)) s = Fin (13176795 / 2097152)"
    unfolding theta_alt assms c a b ..
  moreover have "\<not> cycle_done (Fin (15929816 / 16777216)) s"
    using round32_id [OF p] by (simp add: cycle_done_def assms)
  ultimately show ?thesis by (simp add: two_pi)
qed

text \<open>
  C5, as the code has it. For a time that is not before the cycle start, the loop leaves
  \<open>cycleStart \<le> time < cycleStart + period\<close>, so the exact phase
  \<open>2 * pi * (time - cycleStart) / period\<close> lies in \<open>[0, 2 * pi)\<close>; the binary32 phase
  \<^verbatim>\<open>theta\<close> the code computes from it is finite, not negative and at most 6.2831863
  (rounding lets it reach \<^verbatim>\<open>2.0f * static_cast<float>(M_PI)\<close> and the next value).
\<close>

theorem phase_within_cycle:
  assumes "uniform_ok L" "reachable L s" "is_f32 \<tau>"
    and "fge (Fin \<tau>) (m_CycleStart s)" "advance L (Fin \<tau>) s = Some s'"
  shows "\<exists>c p \<theta>. m_CycleStart s' = Fin c \<and> m_Period s' = Fin p \<and> c \<le> \<tau> \<and> \<tau> < c + p \<and>
    0 \<le> 2 * pi * (\<tau> - c) / p \<and> 2 * pi * (\<tau> - c) / p < 2 * pi \<and>
    theta (Fin \<tau>) s' = Fin \<theta> \<and> 0 \<le> \<theta> \<and> \<theta> \<le> 62831863 / 10000000"
proof -
  obtain c p where s': "m_CycleStart s' = Fin c" "is_f32 c" "m_Period s' = Fin p" "is_f32 p"
    "1 / 2 \<le> p" "p \<le> 3 / 2" "c \<le> \<tau>" "\<tau> < c + p"
    using advance_post [OF assms(1) reachable_inv [OF assms(1,2)] assms(3,4,5)] by blast
  obtain \<theta> where th: "theta (Fin \<tau>) s' = Fin \<theta>" "0 \<le> \<theta>" "\<theta> \<le> 62831863 / 10000000"
    using theta_in_cycle [OF s'(1,3,4,5,6,7,8)] by blast
  have p0: "0 < p" using s'(5) by simp
  have "0 \<le> 2 * pi * (\<tau> - c)" using s'(7) by simp
  then have lo: "0 \<le> 2 * pi * (\<tau> - c) / p" using p0 by (intro divide_nonneg_pos)
  have "2 * pi * (\<tau> - c) < 2 * pi * p" using s'(8) by simp
  then have "2 * pi * (\<tau> - c) / p < 2 * pi * p / p" using p0 by (intro divide_strict_right_mono)
  then have "2 * pi * (\<tau> - c) / p < 2 * pi" using p0 by simp
  then show ?thesis using lo s' th by blast
qed

theorem phase_within_cycle_witness:
  "uniform_ok lower_lib \<and> reachable lower_lib (Sampler lower_lib 4) \<and> is_f32 0 \<and>
   fge (Fin 0) (m_CycleStart (Sampler lower_lib 4)) \<and>
   advance lower_lib (Fin 0) (Sampler lower_lib 4) = Some (Sampler lower_lib 4) \<and>
   (\<exists>c p \<theta>. m_CycleStart (Sampler lower_lib 4) = Fin c \<and>
      m_Period (Sampler lower_lib 4) = Fin p \<and> c \<le> 0 \<and> 0 < c + p \<and>
      0 \<le> 2 * pi * (0 - c) / p \<and> 2 * pi * (0 - c) / p < 2 * pi \<and>
      theta (Fin 0) (Sampler lower_lib 4) = Fin \<theta> \<and> 0 \<le> \<theta> \<and> \<theta> \<le> 62831863 / 10000000)"
proof -
  have g: "fge (Fin 0) (m_CycleStart (Sampler lower_lib 4))" by (simp add: Sampler_lower)
  from phase_within_cycle [OF uniform_ok_lower reachable.constructed is_f32_0 g advance_lower_0]
  show ?thesis
    using uniform_ok_lower reachable.constructed [of lower_lib 4] g advance_lower_0 [of 4]
    by simp
qed

text \<open>
  C5 as stated fails: at the time \<open>- 1\<close> the loop of a new sampler ends at once and the
  phase computed is negative, about \<open>- 4 * pi\<close>.
\<close>

theorem phase_negative_counterexample:
  "advance lower_lib (Fin (- 1)) (Sampler lower_lib 12345) = Some (Sampler lower_lib 12345) \<and>
   theta (Fin (- 1)) (Sampler lower_lib 12345) = Fin (- (13176795 / 1048576))"
  by (simp add: advance_lower_rewound theta_lower_m1)

section \<open>The end of a cycle\<close>

lemma advance_never:
  assumes "I s" and step: "\<And>u. I u \<Longrightarrow> cycle_done t u \<and> I (next_cycle L u)"
  shows "advance L t s = None"
proof (cases "advance L t s")
  case (Some s')
  have "I s' \<and> \<not> cycle_done t s'"
    using advance_invariant [OF Some, where I = I] assms(1) step by blast
  then show ?thesis using step by blast
qed simp

lemma round32_half_nat:
  assumes "n \<le> 2 ^ 24"
  shows "round32 (real n / 2) = Fin (real n / 2)"
proof -
  have "rne (real_of_int (int n) * 2 powr of_int (- 1)) = real_of_int (int n) * 2 powr of_int (- 1)"
    using assms by (intro rne_dyadic) simp_all
  then have r: "rne (real n / 2) = real n / 2" by (simp add: powr_minus_divide)
  have "real n \<le> 2 ^ 24" using assms by (metis of_nat_le_iff of_nat_numeral of_nat_power)
  then have "\<bar>real n / 2\<bar> \<le> FLT_MAX" by (simp add: FLT_MAX_def)
  then show ?thesis by (rule round32_eq [OF r])
qed

lemma lower_sampler_end:
  assumes "Suc k \<le> 2 ^ 24"
  shows "fadd (m_CycleStart (lower_sampler k g)) (m_Period (lower_sampler k g)) =
    Fin (real (Suc k) / 2)"
proof -
  have "real k / 2 + 1 / 2 = real (Suc k) / 2" by simp
  then have "round32 (real k / 2 + 1 / 2) = Fin (real (Suc k) / 2)"
    using round32_half_nat [OF assms] by (simp only:)
  then show ?thesis by (simp add: lower_sampler_def del: of_nat_Suc)
qed

lemma lower_sampler_next:
  assumes "Suc k \<le> 2 ^ 24"
  shows "next_cycle lower_lib (lower_sampler k g) = lower_sampler (Suc k) (Suc (Suc g))"
proof -
  have "m_CycleStart (next_cycle lower_lib (lower_sampler k g)) = Fin (real (Suc k) / 2)"
    using lower_sampler_end [OF assms] by (simp only: next_cycle_fields)
  then show ?thesis
    by (simp add: next_cycle_def lower_sampler_def lower_lib_def Let_def period_range_eq
        amp_range_eq del: of_nat_Suc)
qed

lemma lower_sampler_done:
  assumes "Suc k \<le> 2 ^ 24"
  shows "cycle_done (Fin (real n / 2)) (lower_sampler k g) \<longleftrightarrow> k < n"
  unfolding cycle_done_def lower_sampler_end [OF assms] by auto

lemma advance_lower_run:
  assumes "k \<le> n" "n < 2 ^ 24"
  shows "advance lower_lib (Fin (real n / 2)) (lower_sampler k g) =
    Some (lower_sampler n (g + 2 * (n - k)))"
  using assms
proof (induction "n - k" arbitrary: k g)
  case 0
  then have "k = n" by simp
  moreover have "\<not> cycle_done (Fin (real n / 2)) (lower_sampler n g)"
    using lower_sampler_done [of n n g] 0(3) by simp
  ultimately show ?case by (simp add: advance_skip)
next
  case (Suc d)
  then have k: "k < n" "Suc k \<le> 2 ^ 24" by simp_all
  have "advance lower_lib (Fin (real n / 2)) (lower_sampler k g) =
      advance lower_lib (Fin (real n / 2)) (next_cycle lower_lib (lower_sampler k g))"
    using lower_sampler_done [OF k(2), of n g] k(1) by (intro advance_step) simp
  also have "\<dots> = advance lower_lib (Fin (real n / 2)) (lower_sampler (Suc k) (Suc (Suc g)))"
    by (simp only: lower_sampler_next [OF k(2)])
  also have "\<dots> = Some (lower_sampler n (Suc (Suc g) + 2 * (n - Suc k)))"
    using Suc(1) [of "Suc k" "Suc (Suc g)"] Suc(2,4) k(1) by simp
  also have "Suc (Suc g) + 2 * (n - Suc k) = g + 2 * (n - k)" using k(1) by simp
  finally show ?case .
qed

lemma Sampler_lower_0: "Sampler lower_lib 0 = lower_sampler 0 2"
  by (simp add: Sampler_lower lower_sampler_def numeral_2_eq_2)

lemma far_sampler_reachable: "reachable lower_lib far_sampler"
proof -
  have "advance lower_lib (Fin (real 16777215 / 2)) (lower_sampler 0 2) =
      Some (lower_sampler 16777215 (2 + 2 * (16777215 - 0)))"
    by (rule advance_lower_run) simp_all
  then have "advance lower_lib (Fin (16777215 / 2)) (Sampler lower_lib 0) = Some far_sampler"
    by (simp add: Sampler_lower_0 far_sampler_def)
  then have "SimValue lower_lib (Fin (16777215 / 2)) (Sampler lower_lib 0) =
      Some (wave lower_lib (Fin (16777215 / 2)) far_sampler, far_sampler)"
    by (simp add: SimValue_def)
  then show ?thesis using reachable.evaluated [OF reachable.constructed] by blast
qed

lemma rne_tie_2p23: "rne (2 ^ 23 + 1 / 2) = 2 ^ 23"
  by (subst rne_eval [of 1 23]) (simp_all add: rint_def Let_def)

lemma far_sampler_stuck: "advance lower_lib (Fin 8388608) far_sampler = None"
proof (rule advance_never [where I = "\<lambda>u. (\<exists>c. m_CycleStart u = Fin c \<and> 0 \<le> c \<and> c \<le> 2 ^ 23) \<and>
    m_Period u = Fin (1 / 2) \<and> m_PeriodDist u = period_range"])
  show "(\<exists>c. m_CycleStart far_sampler = Fin c \<and> 0 \<le> c \<and> c \<le> 2 ^ 23) \<and>
    m_Period far_sampler = Fin (1 / 2) \<and> m_PeriodDist far_sampler = period_range"
    by (simp add: far_sampler_def lower_sampler_def exI [of _ "16777215 / 2"])
next
  fix u :: "nat sampler"
  assume "(\<exists>c. m_CycleStart u = Fin c \<and> 0 \<le> c \<and> c \<le> 2 ^ 23) \<and>
    m_Period u = Fin (1 / 2) \<and> m_PeriodDist u = period_range"
  then obtain c where u: "m_CycleStart u = Fin c" "0 \<le> c" "c \<le> 2 ^ 23"
    "m_Period u = Fin (1 / 2)" "m_PeriodDist u = period_range" by blast
  have "rne (c + 1 / 2) \<le> rne (2 ^ 23 + 1 / 2)" using u(3) by (intro rne_mono) simp
  then have hi: "rne (c + 1 / 2) \<le> 2 ^ 23" by (simp only: rne_tie_2p23)
  have lo: "0 \<le> rne (c + 1 / 2)" using u(2) by (intro rne_nonneg) simp
  have "\<bar>rne (c + 1 / 2)\<bar> \<le> FLT_MAX" using hi lo by (simp add: FLT_MAX_def)
  then have e: "round32 (c + 1 / 2) = Fin (rne (c + 1 / 2))" by (rule round32_fin)
  have "cycle_done (Fin 8388608) u" using hi by (simp add: cycle_done_def u e)
  moreover have "m_CycleStart (next_cycle lower_lib u) = Fin (rne (c + 1 / 2))"
    by (simp add: next_cycle_fields u e)
  moreover have "m_Period (next_cycle lower_lib u) = Fin (1 / 2)"
    by (simp add: next_cycle_def Let_def lower_lib_def u period_range_eq)
  ultimately show "cycle_done (Fin 8388608) u \<and>
    ((\<exists>c. m_CycleStart (next_cycle lower_lib u) = Fin c \<and> 0 \<le> c \<and> c \<le> 2 ^ 23) \<and>
     m_Period (next_cycle lower_lib u) = Fin (1 / 2) \<and>
     m_PeriodDist (next_cycle lower_lib u) = period_range)"
    using hi lo u(5) by simp
qed

lemma ulp_small:
  assumes "\<bar>y\<bar> < 2 ^ 23" "y \<noteq> 0"
  shows "ulp y \<le> 1 / 2"
proof -
  have "expo y \<le> 22"
  proof (rule ccontr)
    assume "\<not> expo y \<le> 22"
    then have e: "23 \<le> expo y" by simp
    then have "2 powr of_int (expo y) \<le> \<bar>y\<bar>" using expo_lower [OF assms(2)] by simp
    moreover have "(2::real) powr 23 \<le> 2 powr of_int (expo y)"
      using e by (intro powr_mono) simp_all
    ultimately show False using assms(1) by simp
  qed
  then have "real_of_int (expo y) - 23 \<le> - 1" by simp
  then have "(2::real) powr (of_int (expo y) - 23) \<le> 2 powr (- 1)"
    by (intro powr_mono) simp_all
  then show ?thesis by (simp add: ulp_def powr_minus_divide)
qed

lemma new_cycle_open:
  assumes "0 \<le> r" "r \<le> 2 ^ 22" "1 / 2 \<le> p"
  shows "r < rne (r + p)"
proof -
  have "\<bar>r + 1 / 2\<bar> < 2 ^ 23" "r + 1 / 2 \<noteq> 0" using assms(1,2) by simp_all
  then have "ulp (r + 1 / 2) \<le> 1 / 2" by (rule ulp_small)
  moreover have "r + 1 / 2 - rne (r + 1 / 2) \<le> ulp (r + 1 / 2) / 2"
    using rne_err [of "r + 1 / 2"] by linarith
  ultimately have "r < rne (r + 1 / 2)" by linarith
  also have "\<dots> \<le> rne (r + p)" using assms(3) by (intro rne_mono) simp
  finally show ?thesis .
qed

text \<open>
  At the end of a cycle that ends at \<open>2 ^ 22\<close> or before, the evaluation starts the next
  cycle and returns zero.
\<close>

lemma boundary_value_is_zero:
  assumes "uniform_ok L" "sin_ok L" "cycle_inv s"
    and "fadd (m_CycleStart s) (m_Period s) = Fin r" "r \<le> 2 ^ 22"
  shows "SimValue L (Fin r) s = Some (Fin 0, next_cycle L s)"
proof -
  have inv': "cycle_inv (next_cycle L s)" using next_cycle_inv [OF assms(1,3)] .
  then obtain c p a where n: "m_CycleStart (next_cycle L s) = Fin c" "0 \<le> c"
    "m_Period (next_cycle L s) = Fin p" "1 / 2 \<le> p" "p \<le> 3 / 2"
    "m_Amplitude (next_cycle L s) = Fin a"
    unfolding cycle_inv_def by blast
  have c: "c = r" using n(1) assms(4) by (simp add: next_cycle_fields)
  have "r < rne (r + p)" using new_cycle_open [of r p] n(2,4) assms(5) c by simp
  moreover have "rne (r + p) \<le> rne (2 ^ 22 + 3 / 2)" using assms(5) n(5) by (intro rne_mono) simp
  moreover have "rne (2 ^ 22 + 3 / 2) \<le> 2 ^ 23"
    using is_f32_int [of "2 ^ 23"] by (intro rne_le) simp_all
  ultimately have "r < rne (r + p)" "\<bar>rne (r + p)\<bar> \<le> FLT_MAX"
    using n(2) c by (simp_all add: FLT_MAX_def)
  then have "\<not> cycle_done (Fin r) (next_cycle L s)"
    by (simp add: cycle_done_def n c round32_fin)
  moreover have "cycle_done (Fin r) s" by (simp add: cycle_done_def assms(4))
  ultimately have adv: "advance L (Fin r) s = Some (next_cycle L s)"
    by (simp add: advance_step advance_skip)
  have "theta (Fin r) (next_cycle L s) = Fin 0"
    using theta_zero [of "next_cycle L s" r p] n c by simp
  moreover have "std_sin L (Fin 0) = Fin 0" using assms(2) by (simp add: sin_ok_def)
  ultimately have "wave L (Fin r) (next_cycle L s) = Fin 0"
    by (simp add: wave_def n)
  then show ?thesis using adv by (simp add: SimValue_def)
qed

section \<open>Times for which the evaluation returns a bounded value\<close>

lemma new_cycle_progress:
  assumes "0 \<le> r" "r \<le> 2 ^ 22" "1 / 2 \<le> p"
  shows "r + 1 / 4 \<le> rne (r + p)"
proof -
  have "\<bar>r + 1 / 2\<bar> < 2 ^ 23" "r + 1 / 2 \<noteq> 0" using assms(1,2) by simp_all
  then have "ulp (r + 1 / 2) \<le> 1 / 2" by (rule ulp_small)
  moreover have "r + 1 / 2 - rne (r + 1 / 2) \<le> ulp (r + 1 / 2) / 2"
    using rne_err [of "r + 1 / 2"] by linarith
  ultimately have "r + 1 / 4 \<le> rne (r + 1 / 2)" by linarith
  also have "\<dots> \<le> rne (r + p)" using assms(3) by (intro rne_mono) simp
  finally show ?thesis .
qed

lemma is_f32_grid:
  assumes "is_f32 c" shows "c / ulp c = of_int (rint (c / ulp c))"
proof -
  have "of_int (rint (c / ulp c)) * ulp c = c" using assms by (simp add: is_f32_def rne_def)
  then show ?thesis by (simp add: field_simps)
qed

lemma half_step_exact:
  assumes "is_f32 c" "2 ^ 22 \<le> c" "c < 2 ^ 23"
  shows "rne (c + 1 / 2) = c + 1 / 2"
proof -
  have "expo c = 22" using assms(2,3) by (intro expo_eqI) simp_all
  then have u: "ulp c = 1 / 2" by (simp add: ulp_def powr_minus_divide)
  define m where "m = rint (c / ulp c)"
  have "c / ulp c = of_int m" unfolding m_def by (rule is_f32_grid [OF assms(1)])
  then have c: "c = of_int m / 2" unfolding u by simp
  have "of_int m < (2::real) ^ 24" using assms(3) c by simp
  then have "m < 2 ^ 24" by simp
  moreover have "0 \<le> m" using assms(2) c by simp
  ultimately have "\<bar>m + 1\<bar> \<le> 2 ^ 24" by simp
  then have "rne (of_int (m + 1) * 2 powr of_int (- 1)) = of_int (m + 1) * 2 powr of_int (- 1)"
    by (intro rne_dyadic) simp_all
  moreover have "of_int (m + 1) * 2 powr of_int (- 1) = c + 1 / 2"
    by (simp add: c powr_minus_divide add_divide_distrib)
  ultimately show ?thesis by (simp only:)
qed

lemma cycle_progress:
  assumes "is_f32 c" "0 \<le> c" "c < 2 ^ 23" "1 / 2 \<le> p"
  shows "c + 1 / 4 \<le> rne (c + p)"
proof (cases "c \<le> 2 ^ 22")
  case True
  then show ?thesis using new_cycle_progress [OF assms(2) _ assms(4)] by simp
next
  case False
  then have "rne (c + 1 / 2) = c + 1 / 2" using assms(1,3) by (intro half_step_exact) simp_all
  moreover have "rne (c + 1 / 2) \<le> rne (c + p)" using assms(4) by (intro rne_mono) simp
  ultimately show ?thesis by simp
qed

text \<open>
  Below the time \<open>2 ^ 23\<close> the loop ends: each iteration moves the cycle start by 0.25
  at least.
\<close>

lemma advance_terminates_aux:
  assumes "uniform_ok L" "\<tau> < 2 ^ 23"
  shows "cycle_inv s \<Longrightarrow> m_CycleStart s = Fin c \<Longrightarrow> nat \<lceil>4 * (\<tau> - c)\<rceil> = n \<Longrightarrow>
    \<exists>s'. advance L (Fin \<tau>) s = Some s'"
proof (induction n arbitrary: s c rule: less_induct)
  case (less n)
  show ?case
  proof (cases "cycle_done (Fin \<tau>) s")
    case False
    then show ?thesis by (simp add: advance_skip)
  next
    case True
    obtain c0 p where s: "m_CycleStart s = Fin c0" "is_f32 c0" "0 \<le> c0" "c0 \<le> 2 ^ 25"
      "m_Period s = Fin p" "1 / 2 \<le> p" "p \<le> 3 / 2"
      using less.prems(1) unfolding cycle_inv_def by blast
    have c0: "c0 = c" using s(1) less.prems(2) by simp
    obtain r where r: "fadd (Fin c) (Fin p) = Fin r" "c \<le> r"
      using next_cycle_start [OF s(2,3,4,6,7)] c0 by blast
    have rr: "r = rne (c + p)" using r(1) by (simp add: round32_def Let_def split: if_splits)
    have rt: "r \<le> \<tau>" using True s(5) less.prems(2) r(1) by (simp add: cycle_done_def)
    then have "c < 2 ^ 23" using r(2) assms(2) by linarith
    then have prog: "c + 1 / 4 \<le> r" using cycle_progress [of c p] s(2,3,6) c0 rr by simp
    have inv': "cycle_inv (next_cycle L s)" using next_cycle_inv [OF assms(1) less.prems(1)] .
    have cs': "m_CycleStart (next_cycle L s) = Fin r"
      using r(1) s(5) less.prems(2) by (simp add: next_cycle_fields)
    have "4 * (\<tau> - r) \<le> 4 * (\<tau> - c) - 1" using prog by simp
    then have "\<lceil>4 * (\<tau> - r)\<rceil> \<le> \<lceil>4 * (\<tau> - c) - 1\<rceil>" by (rule ceiling_mono)
    then have "\<lceil>4 * (\<tau> - r)\<rceil> \<le> \<lceil>4 * (\<tau> - c)\<rceil> - 1" by simp
    moreover have "0 < \<lceil>4 * (\<tau> - c)\<rceil>" using prog rt by (simp add: ceiling_less_iff)
    ultimately have "nat \<lceil>4 * (\<tau> - r)\<rceil> < n" using less.prems(3) by linarith
    from less.IH [OF this inv' cs' refl]
    show ?thesis using True by (simp add: advance_step)
  qed
qed

lemma advance_terminates:
  assumes "uniform_ok L" "cycle_inv s" "\<tau> < 2 ^ 23"
  shows "\<exists>s'. advance L (Fin \<tau>) s = Some s'"
proof -
  obtain c where "m_CycleStart s = Fin c" using assms(2) unfolding cycle_inv_def by blast
  then show ?thesis using advance_terminates_aux [OF assms(1,3,2)] by blast
qed

lemma SimValue_returns:
  assumes "uniform_ok L" "reachable L s" "\<tau> < 2 ^ 23"
  shows "\<exists>v s'. SimValue L (Fin \<tau>) s = Some (v, s')"
  using advance_terminates [OF assms(1) reachable_inv [OF assms(1,2)] assms(3)]
  by (auto simp: SimValue_def)

lemma rne_absorb_2p124: "rne (2 ^ 124 + 2 ^ 25) = 2 ^ 124"
  by (subst rne_eval [of "2 ^ 101" 124]) (simp_all add: rint_def Let_def)

text \<open>The phase is finite for every time of magnitude \<open>2 ^ 124\<close> or less.\<close>

lemma phase_finite:
  assumes "cycle_inv s" "\<bar>\<tau>\<bar> \<le> 2 ^ 124"
  shows "is_finite (theta (Fin \<tau>) s)"
proof -
  obtain c p where s: "m_CycleStart s = Fin c" "0 \<le> c" "c \<le> 2 ^ 25"
    "m_Period s = Fin p" "1 / 2 \<le> p" "p \<le> 3 / 2"
    using assms(1) unfolding cycle_inv_def by blast
  define K :: real where "K = 13176795 / 2097152"
  define d where "d = rne (\<tau> - c)"
  define m where "m = rne (K * d)"
  define q where "q = rne (m / p)"
  define B1 :: real where "B1 = 13176795 * 2 ^ 103"
  define B2 :: real where "B2 = 13176795 * 2 ^ 104"
  have f2: "is_f32 B1" unfolding B1_def using is_f32_dyadic [of 13176795 103] by simp
  have f3: "is_f32 B2" unfolding B2_def using is_f32_dyadic [of 13176795 104] by simp
  have big: "B2 \<le> FLT_MAX" "2 ^ 124 \<le> FLT_MAX" "B1 \<le> FLT_MAX"
    by (simp_all add: FLT_MAX_def B1_def B2_def)
  have "\<tau> - c \<le> 2 ^ 124 + 2 ^ 25" "- (2 ^ 124 + 2 ^ 25) \<le> \<tau> - c"
    using assms(2) s(2,3) by simp_all
  then have "rne (\<tau> - c) \<le> rne (2 ^ 124 + 2 ^ 25)"
    "rne (- (2 ^ 124 + 2 ^ 25)) \<le> rne (\<tau> - c)" by (simp_all only: rne_mono)
  then have d: "\<bar>d\<bar> \<le> 2 ^ 124"
    unfolding d_def rne_minus rne_absorb_2p124 by (simp add: abs_le_iff)
  have "\<bar>K * d\<bar> \<le> K * 2 ^ 124"
    unfolding abs_mult using d by (intro mult_mono) (simp_all add: K_def)
  then have "\<bar>K * d\<bar> \<le> B1" by (simp add: K_def B1_def)
  then have m: "\<bar>m\<bar> \<le> B1" unfolding m_def by (rule rne_abs_le [OF f2])
  have p0: "0 < p" using s(5) by simp
  have "\<bar>m\<bar> / p \<le> B1 / (1 / 2)" using m s(5) p0 by (intro frac_le) (simp_all add: B1_def)
  then have "\<bar>m / p\<bar> \<le> B2" using p0 by (simp add: B1_def B2_def)
  then have q: "\<bar>q\<bar> \<le> B2" unfolding q_def by (rule rne_abs_le [OF f3])
  have 1: "fsub (Fin \<tau>) (Fin c) = Fin d"
    using d big by (simp add: fsub_def d_def [symmetric] round32_fin)
  have 2: "fmul (Fin K) (Fin d) = Fin m"
    using m big by (simp add: m_def [symmetric] round32_fin)
  have 3: "fdiv (Fin m) (Fin p) = Fin q"
    using q big p0 by (simp add: q_def [symmetric] round32_fin)
  have "theta (Fin \<tau>) s = Fin q"
    unfolding theta_alt s K_def [symmetric] 1 2 3 ..
  then show ?thesis by simp
qed

text \<open>
  C3, as the code has it. For every time from \<open>- 2 ^ 124\<close> up to, but not including,
  \<open>2 ^ 23\<close>, \<^verbatim>\<open>SimValue\<close> returns a finite value that is at most the amplitude of the
  cycle in magnitude, itself at most 1. For any other time the same holds of the value
  returned whenever \<^verbatim>\<open>SimValue\<close> returns and the phase \<^verbatim>\<open>theta\<close> it computed is
  finite.
\<close>

theorem value_within_amplitude:
  assumes "uniform_ok L" "sin_ok L" "reachable L s"
  shows "(\<forall>v s'. SimValue L t s = Some (v, s') \<and> is_finite (theta t s') \<longrightarrow>
       (\<exists>y a. v = Fin y \<and> m_Amplitude s' = Fin a \<and> \<bar>y\<bar> \<le> a \<and> a \<le> 1)) \<and>
    (\<forall>\<tau>. t = Fin \<tau> \<and> - (2 ^ 124) \<le> \<tau> \<and> \<tau> < 2 ^ 23 \<longrightarrow>
       (\<exists>v s' y a. SimValue L t s = Some (v, s') \<and>
          v = Fin y \<and> m_Amplitude s' = Fin a \<and> \<bar>y\<bar> \<le> a \<and> a \<le> 1))"
proof -
  have inv: "cycle_inv s" using reachable_inv [OF assms(1,3)] .
  have bounded: "\<exists>y a. v = Fin y \<and> m_Amplitude s' = Fin a \<and> \<bar>y\<bar> \<le> a \<and> a \<le> 1"
    if run: "SimValue L t s = Some (v, s')" and fin: "is_finite (theta t s')" for v s'
  proof -
    have adv: "advance L t s = Some s'" and v: "v = wave L t s'"
      using run by (auto simp: SimValue_def split: option.splits)
    have "cycle_inv s'" using advance_inv [OF assms(1) inv adv] .
    then obtain a where a: "m_Amplitude s' = Fin a" "is_f32 a" "1 / 10 \<le> a" "a \<le> 1"
      unfolding cycle_inv_def by blast
    obtain \<theta> where "theta t s' = Fin \<theta>" using fin by (cases "theta t s'") simp_all
    then obtain y where "wave L t s' = Fin y" "\<bar>y\<bar> \<le> a"
      using wave_bounded [OF assms(2) a(1,2) _ a(4)] a(3) by force
    then show ?thesis using a v by simp
  qed
  have "\<exists>v s' y a. SimValue L t s = Some (v, s') \<and>
      v = Fin y \<and> m_Amplitude s' = Fin a \<and> \<bar>y\<bar> \<le> a \<and> a \<le> 1"
    if t: "t = Fin \<tau>" and lo: "- (2 ^ 124) \<le> \<tau>" and hi: "\<tau> < 2 ^ 23" for \<tau>
  proof -
    obtain s' where adv: "advance L t s = Some s'"
      using advance_terminates [OF assms(1) inv hi] t by blast
    have "cycle_inv s'" using advance_inv [OF assms(1) inv adv] .
    moreover have "\<bar>\<tau>\<bar> \<le> 2 ^ 124" using lo hi by (simp add: abs_le_iff)
    ultimately have "is_finite (theta t s')" unfolding t by (rule phase_finite)
    moreover have "SimValue L t s = Some (wave L t s', s')" using adv by (simp add: SimValue_def)
    ultimately show ?thesis using bounded by blast
  qed
  then show ?thesis using bounded by blast
qed

theorem value_within_amplitude_witness:
  "uniform_ok lower_lib \<and> sin_ok lower_lib \<and> reachable lower_lib (Sampler lower_lib 9) \<and>
   SimValue lower_lib (Fin 0) (Sampler lower_lib 9) = Some (Fin 0, Sampler lower_lib 9) \<and>
   is_finite (theta (Fin 0) (Sampler lower_lib 9)) \<and>
   - (2 ^ 124) \<le> (0 :: real) \<and> (0 :: real) < 2 ^ 23 \<and>
   (\<exists>y a. Fin 0 = Fin y \<and> m_Amplitude (Sampler lower_lib 9) = Fin a \<and> \<bar>y\<bar> \<le> a \<and> a \<le> 1)"
proof -
  have th: "is_finite (theta (Fin 0) (Sampler lower_lib 9))"
    using theta_zero [of "Sampler lower_lib 9" 0 "1 / 2"] by (simp add: Sampler_lower)
  from value_within_amplitude [OF uniform_ok_lower sin_ok_lower reachable.constructed,
      where t = "Fin 0" and inSeed1 = 9] SimValue_lower_0 [of 9] th
  have "\<exists>y a. Fin 0 = Fin y \<and> m_Amplitude (Sampler lower_lib 9) = Fin a \<and> \<bar>y\<bar> \<le> a \<and> a \<le> 1"
    by blast
  then show ?thesis
    using uniform_ok_lower sin_ok_lower reachable.constructed [of lower_lib 9]
      SimValue_lower_0 [of 9] th by simp
qed

text \<open>
  C3 as stated fails: at the finite time \<open>- 2 ^ 126\<close> a new sampler returns a NaN, which
  is neither finite nor bounded by the amplitude.
\<close>

theorem value_not_finite_counterexample:
  "SimValue lower_lib (Fin (- (2 ^ 126))) (Sampler lower_lib 12345) =
     Some (NaN, Sampler lower_lib 12345)"
  using wave_overflow [of "- (2 ^ 126)" 12345] is_f32_2p126 by simp

section \<open>The cycle that ends at \<open>2 ^ 25\<close>\<close>

lemma ranges_differ: "amp_range \<noteq> period_range"
  by (simp add: amp_range_eq period_range_eq)

lemma is_f32_five_quarters [simp]: "is_f32 (5 / 4)"
  using is_f32_dyadic [of 5 "- 2"] by (simp add: powr_minus_divide)

lemma uniform_ok_staged: "uniform_ok staged_lib"
  by (simp add: uniform_ok_def staged_lib_def in_range_def period_range_eq)

lemma Sampler_staged: "Sampler staged_lib 0 = staged_sampler 0"
  by (simp add: Sampler_def staged_lib_def staged_sampler_def staged_start_def Let_def
      ranges_differ)
    (simp add: amp_range_eq)

text \<open>A binary32 value above \<open>2 ^ 25 - 2\<close> and at most \<open>2 ^ 25\<close> is \<open>2 ^ 25\<close>.\<close>

lemma no_value_below_2p25:
  assumes "is_f32 r" "2 ^ 25 - 2 < r" "r \<le> 2 ^ 25"
  shows "r = 2 ^ 25"
proof (rule ccontr)
  assume "r \<noteq> 2 ^ 25"
  then have lt: "r < 2 ^ 25" using assms(3) by simp
  have "expo r = 24" using assms(2) lt by (intro expo_eqI) simp_all
  then have u: "ulp r = 2" by (simp add: ulp_def)
  define m where "m = rint (r / ulp r)"
  have "r / ulp r = of_int m" unfolding m_def by (rule is_f32_grid [OF assms(1)])
  then have r: "r = 2 * of_int m" unfolding u by simp
  have "real_of_int (2 ^ 24 - 1) < of_int m" "real_of_int m < of_int (2 ^ 24)"
    using assms(2) lt r by simp_all
  then have "2 ^ 24 - 1 < m" "m < 2 ^ 24" by (simp_all only: of_int_less_iff)
  then show False by simp
qed

lemma cycle_end:
  assumes "cycle_inv s"
  obtains c p r where "m_CycleStart s = Fin c" "m_Period s = Fin p"
    "fadd (m_CycleStart s) (m_Period s) = Fin r" "is_f32 r" "c \<le> r" "r \<le> 2 ^ 25"
proof -
  obtain c p where s: "m_CycleStart s = Fin c" "is_f32 c" "0 \<le> c" "c \<le> 2 ^ 25"
    "m_Period s = Fin p" "1 / 2 \<le> p" "p \<le> 3 / 2"
    using assms unfolding cycle_inv_def by blast
  obtain r where "fadd (Fin c) (Fin p) = Fin r" "is_f32 r" "r \<le> 2 ^ 25" "c \<le> r"
    using next_cycle_start [OF s(2,3,4,6,7)] by blast
  then show ?thesis using that s by simp
qed

text \<open>
  An evaluation at 33554430 that returns leaves a cycle that ends at \<open>2 ^ 25\<close>: the end
  is a binary32 value above the time and at most \<open>2 ^ 25\<close>.
\<close>

lemma last_cycle_end:
  assumes "uniform_ok L" "cycle_inv s" "advance L (Fin 33554430) s = Some s'"
  shows "cycle_inv s' \<and> fadd (m_CycleStart s') (m_Period s') = Fin 33554432"
proof -
  have inv: "cycle_inv s'" and out: "\<not> cycle_done (Fin 33554430) s'"
    using advance_invariant [OF assms(3), where I = cycle_inv] assms(1,2) next_cycle_inv
    by blast+
  obtain c p r where r: "fadd (m_CycleStart s') (m_Period s') = Fin r" "is_f32 r" "r \<le> 2 ^ 25"
    using cycle_end [OF inv] by blast
  have "33554430 < r" using out r(1) by (simp add: cycle_done_def)
  then have "r = 2 ^ 25" using r(2,3) by (intro no_value_below_2p25) simp_all
  then show ?thesis using inv r(1) by simp
qed

text \<open>
  Wherever the evaluation at the end of a cycle returns, it returns zero: the loop leaves
  the cycle start at that end.
\<close>

lemma boundary_value_zero_if_returns:
  assumes ok: "uniform_ok L" "sin_ok L" and inv: "cycle_inv s"
    and run: "SimValue L (fadd (m_CycleStart s) (m_Period s)) s = Some (v, s')"
  shows "v = Fin 0"
proof -
  obtain c p r where r: "fadd (m_CycleStart s) (m_Period s) = Fin r"
    using cycle_end [OF inv] by blast
  have adv: "advance L (Fin r) s = Some s'" and v: "v = wave L (Fin r) s'"
    using run unfolding r by (auto simp: SimValue_def split: option.splits)
  have "cycle_done (Fin r) s" by (simp add: cycle_done_def r)
  then have adv': "advance L (Fin r) (next_cycle L s) = Some s'"
    using adv by (simp add: advance_step)
  have step: "cycle_inv (next_cycle L u) \<and> m_CycleStart (next_cycle L u) = Fin r"
    if u: "cycle_inv u \<and> m_CycleStart u = Fin r" and d: "cycle_done (Fin r) u" for u
  proof -
    obtain c' p' r' where e: "m_CycleStart u = Fin c'"
      "fadd (m_CycleStart u) (m_Period u) = Fin r'" "c' \<le> r'"
      using cycle_end [of u] u by blast
    have "r' \<le> r" using d e(2) by (simp add: cycle_done_def)
    moreover have "c' = r" using e(1) u by simp
    ultimately have "r' = r" using e(3) by simp
    then show ?thesis using next_cycle_inv [OF ok(1)] u e(2) by (simp add: next_cycle_fields)
  qed
  have "(cycle_inv s' \<and> m_CycleStart s' = Fin r) \<and> \<not> cycle_done (Fin r) s'"
    by (rule advance_invariant [OF adv',
          where I = "\<lambda>u. cycle_inv u \<and> m_CycleStart u = Fin r"])
      (use next_cycle_inv [OF ok(1) inv] r step in \<open>simp_all add: next_cycle_fields\<close>)
  then obtain p' a' where s': "m_CycleStart s' = Fin r" "m_Period s' = Fin p'" "1 / 2 \<le> p'"
    "m_Amplitude s' = Fin a'" unfolding cycle_inv_def by blast
  have "theta (Fin r) s' = Fin 0" using theta_zero [of s' r p'] s' by simp
  moreover have "std_sin L (Fin 0) = Fin 0" using ok(2) by (simp add: sin_ok_def)
  ultimately show ?thesis by (simp add: v wave_def s')
qed

text \<open>
  C1. The evaluation at the end of a cycle does not return zero from every state a sampler
  can be in. Whenever an evaluation at 33554430 returns, it leaves a cycle whose end
  \<^verbatim>\<open>m_CycleStart + m_Period\<close> is 33554432, that is \<open>2 ^ 25\<close>, and the evaluation at that
  end never returns: the cycle start cannot pass \<open>2 ^ 25\<close>, so the loop test stays true.
  This holds whatever the distributions draw.
\<close>

theorem boundary_at_2p25_never_returns:
  assumes "uniform_ok L" "reachable L s" "SimValue L (Fin 33554430) s = Some (v, s')"
  shows "reachable L s' \<and> fadd (m_CycleStart s') (m_Period s') = Fin 33554432 \<and>
    SimValue L (fadd (m_CycleStart s') (m_Period s')) s' = None"
proof -
  have adv: "advance L (Fin 33554430) s = Some s'"
    using assms(3) by (auto simp: SimValue_def split: option.splits)
  have e: "cycle_inv s'" "fadd (m_CycleStart s') (m_Period s') = Fin 33554432"
    using last_cycle_end [OF assms(1) reachable_inv [OF assms(1,2)] adv] by simp_all
  have "advance L (Fin 33554432) s' = None"
    by (rule advance_stuck [OF assms(1) e(1)]) simp
  then have "SimValue L (Fin 33554432) s' = None" by (simp add: SimValue_def)
  then show ?thesis using e(2) reachable.evaluated [OF assms(2,3)] by simp
qed

lemma rint_above_half:
  assumes "1 / 2 < f" "f < 1"
  shows "rint (of_int j + f) = j + 1"
proof -
  have "\<lfloor>of_int j + f\<rfloor> = j" using assms by (intro floor_unique) simp_all
  then show ?thesis using assms by (simp add: rint_def Let_def)
qed

lemma round32_nat:
  assumes "n \<le> 2 ^ 24"
  shows "round32 (real n) = Fin (real n)"
proof -
  have "rne (real_of_int (int n) * 2 powr of_int 0) = real_of_int (int n) * 2 powr of_int 0"
    using assms by (intro rne_dyadic) simp_all
  then have r: "rne (real n) = real n" by simp
  have "real n \<le> 2 ^ 24" using assms by (metis of_nat_le_iff of_nat_numeral of_nat_power)
  then have "\<bar>real n\<bar> \<le> FLT_MAX" by (simp add: FLT_MAX_def)
  then show ?thesis by (rule round32_eq [OF r])
qed

lemma even_step:
  assumes "16777216 \<le> k" "k \<le> 25165823"
  shows "round32 (2 * real k - 16777216 + 5 / 4) = Fin (2 * real k - 16777216 + 2)"
proof -
  define j where "j = int k - 8388608"
  define x where "x = 2 * real k - 16777216 + 5 / 4"
  have k: "real k = of_int j + 8388608" by (simp add: j_def)
  have j: "8388608 \<le> j" "j \<le> 16777215" using assms by (simp_all add: j_def)
  have xj: "x = 2 * of_int j + 5 / 4" by (simp add: x_def k)
  have jr: "8388608 \<le> real_of_int j" "real_of_int j \<le> 16777215" using j by simp_all
  have "rne x = of_int (rint (x / 2)) * 2"
    by (rule rne_eval [of 2 24]) (use jr in \<open>simp_all add: xj\<close>)
  moreover have "x / 2 = of_int j + 5 / 8" by (simp add: xj)
  ultimately have "rne x = of_int (j + 1) * 2" by (simp add: rint_above_half)
  then have r: "rne x = 2 * real k - 16777216 + 2" by (simp add: k)
  have "\<bar>2 * real k - 16777216 + 2\<bar> \<le> FLT_MAX" using jr by (simp add: k FLT_MAX_def)
  then show ?thesis unfolding x_def [symmetric] by (rule round32_eq [OF r])
qed

lemma staged_end:
  assumes "k \<le> 25165823"
  shows "fadd (m_CycleStart (staged_sampler k)) (m_Period (staged_sampler k)) =
    Fin (staged_start (Suc k))"
proof (cases "k < 16777216")
  case True
  then have "round32 (real (Suc k)) = Fin (real (Suc k))" by (intro round32_nat) simp
  moreover have "real k + 1 = real (Suc k)" by simp
  ultimately have "round32 (real k + 1) = Fin (real (Suc k))" by (simp only:)
  then show ?thesis using True by (simp add: staged_sampler_def staged_start_def del: of_nat_Suc)
next
  case False
  then have "round32 (2 * real k - 16777216 + 5 / 4) = Fin (2 * real k - 16777216 + 2)"
    using assms by (intro even_step) simp_all
  moreover have "staged_start k = 2 * real k - 16777216" using False
    by (simp add: staged_start_def)
  moreover have "staged_start (Suc k) = 2 * real k - 16777216 + 2" using False
    by (simp add: staged_start_def)
  ultimately show ?thesis using False by (simp add: staged_sampler_def)
qed

lemma staged_next:
  assumes "k \<le> 25165823"
  shows "next_cycle staged_lib (staged_sampler k) = staged_sampler (Suc k)"
proof -
  have "m_CycleStart (next_cycle staged_lib (staged_sampler k)) = Fin (staged_start (Suc k))"
    using staged_end [OF assms] by (simp only: next_cycle_fields)
  moreover have "m_PeriodDist (staged_sampler k) = period_range"
    "m_AmpDist (staged_sampler k) = amp_range" "m_Rng (staged_sampler k) = 2 * k + 2"
    by (simp_all add: staged_sampler_def)
  ultimately show ?thesis
    by (simp add: next_cycle_def Let_def staged_lib_def ranges_differ)
      (auto simp: staged_sampler_def amp_range_eq)
qed

lemma staged_start_mono: "k \<le> n \<Longrightarrow> staged_start k \<le> staged_start n"
  by (auto simp: staged_start_def)

lemma staged_done:
  assumes "k < 25165823"
  shows "cycle_done (Fin 33554430) (staged_sampler k)"
proof -
  have "staged_start (Suc k) \<le> staged_start 25165823" using assms by (intro staged_start_mono) simp
  also have "\<dots> = 33554430" by (simp add: staged_start_def)
  finally show ?thesis using staged_end [of k] assms by (simp add: cycle_done_def)
qed

lemma staged_last: "\<not> cycle_done (Fin 33554430) (staged_sampler 25165823)"
  using staged_end [of 25165823] by (simp add: cycle_done_def staged_start_def)

lemma advance_staged_run:
  assumes "k \<le> 25165823"
  shows "advance staged_lib (Fin 33554430) (staged_sampler k) = Some (staged_sampler 25165823)"
  using assms
proof (induction "25165823 - k" arbitrary: k)
  case 0
  then have "k = 25165823" by simp
  then show ?case using staged_last by (simp add: advance_skip)
next
  case (Suc d)
  then have k: "k < 25165823" by simp
  have "advance staged_lib (Fin 33554430) (staged_sampler k) =
      advance staged_lib (Fin 33554430) (next_cycle staged_lib (staged_sampler k))"
    using staged_done [OF k] by (rule advance_step)
  also have "\<dots> = advance staged_lib (Fin 33554430) (staged_sampler (Suc k))"
    using k by (simp only: staged_next)
  also have "\<dots> = Some (staged_sampler 25165823)"
    using Suc(1) [of "Suc k"] Suc(2) k by simp
  finally show ?case .
qed

theorem boundary_at_2p25_never_returns_witness:
  "uniform_ok staged_lib \<and> reachable staged_lib (Sampler staged_lib 0) \<and>
   SimValue staged_lib (Fin 33554430) (Sampler staged_lib 0) =
     Some (wave staged_lib (Fin 33554430) (staged_sampler 25165823), staged_sampler 25165823) \<and>
   reachable staged_lib (staged_sampler 25165823) \<and>
   fadd (m_CycleStart (staged_sampler 25165823)) (m_Period (staged_sampler 25165823)) =
     Fin 33554432 \<and>
   SimValue staged_lib
     (fadd (m_CycleStart (staged_sampler 25165823)) (m_Period (staged_sampler 25165823)))
     (staged_sampler 25165823) = None"
proof -
  have run: "SimValue staged_lib (Fin 33554430) (Sampler staged_lib 0) =
      Some (wave staged_lib (Fin 33554430) (staged_sampler 25165823), staged_sampler 25165823)"
    using advance_staged_run [of 0] by (simp add: SimValue_def Sampler_staged)
  from boundary_at_2p25_never_returns [OF uniform_ok_staged reachable.constructed run]
  show ?thesis using uniform_ok_staged reachable.constructed [of staged_lib 0] run by blast
qed

end
